theory Spec2Isabelle
  imports Main "HOL-Library.Char_ord" "HOL-Library.List_Lexorder" "HOL-Library.Product_Lexorder"
begin

section \<open>Connection flights: data model\<close>

text \<open>
  The program \<^verbatim>\<open>path_finder.py\<close> keeps two module-level structures: the dictionary
  \<^verbatim>\<open>routes\<close> (city to a dictionary from neighbour city to flight duration) and the
  pandas table \<^verbatim>\<open>flights\<close> (one row per scheduled weekly departure). The functions read
  them as globals; here they are explicit parameters.

  A \<^verbatim>\<open>datetime.timedelta\<close> is modelled by its total number of seconds, an unbounded
  integer: every timedelta of the program is built from whole days, hours and minutes, so
  the microsecond field is always zero. The attributes \<^verbatim>\<open>.days\<close> and \<^verbatim>\<open>.seconds\<close> of the
  normalised Python object are the quotient and the remainder by 86400. The magnitude
  limit of \<^verbatim>\<open>timedelta\<close> (about 10^9 days) is not modelled.
\<close>

type_synonym city = string

type_synonym timedelta = int

definition timedelta :: "int \<Rightarrow> int \<Rightarrow> int \<Rightarrow> timedelta" where
  \<comment> \<open>\<^verbatim>\<open>timedelta(days=d, hours=h, minutes=m)\<close>\<close>
  "timedelta d h m = d * 86400 + h * 3600 + m * 60"

definition td_days :: "timedelta \<Rightarrow> int" where
  "td_days t = t div 86400"

definition td_seconds :: "timedelta \<Rightarrow> int" where
  "td_seconds t = t mod 86400"

datatype py_error = IndexError | KeyError | TypeError

text \<open>
  The dictionary \<^verbatim>\<open>week_days\<close> maps 1..7 to the Russian names of the days; the labels are
  written here in English. A lookup of any other key raises \<^verbatim>\<open>KeyError\<close>.
\<close>

definition week_days :: "(int \<times> string) list" where
  "week_days = [(1, ''Monday''), (2, ''Tuesday''), (3, ''Wednesday''), (4, ''Thursday''),
                (5, ''Friday''), (6, ''Saturday''), (7, ''Sunday'')]"

text \<open>One row of the table \<^verbatim>\<open>flights\<close>; the table is the list of its rows in order.\<close>

record flight =
  city_from :: city
  city_to :: city
  week_day :: int
  time :: timedelta
  price :: int

text \<open>
  \<^verbatim>\<open>routes\<close> is a \<^verbatim>\<open>defaultdict(dict)\<close>. Dictionaries iterate in insertion order, so both
  levels are association lists, read with \<^const>\<open>map_of\<close>. \<^verbatim>\<open>routes[a][b]\<close> raises
  \<^verbatim>\<open>KeyError\<close> when \<^verbatim>\<open>b\<close> is missing from \<^verbatim>\<open>routes[a]\<close>; a missing \<^verbatim>\<open>a\<close> yields the empty
  dictionary, and the second lookup raises as well.
\<close>

type_synonym routes = "(city \<times> (city \<times> timedelta) list) list"

definition routes_row :: "routes \<Rightarrow> city \<Rightarrow> (city \<times> timedelta) list" where
  \<comment> \<open>\<^verbatim>\<open>routes[a]\<close>\<close>
  "routes_row routes a = (case map_of routes a of None \<Rightarrow> [] | Some nb \<Rightarrow> nb)"

definition routes_get :: "routes \<Rightarrow> city \<Rightarrow> city \<Rightarrow> py_error + timedelta" where
  \<comment> \<open>\<^verbatim>\<open>routes[a][b]\<close>\<close>
  "routes_get routes a b =
     (case map_of (routes_row routes a) b of None \<Rightarrow> Inl KeyError | Some d \<Rightarrow> Inr d)"

section \<open>Time-cycle utilities\<close>

definition timedelta_to_day_hour_minutes :: "timedelta \<Rightarrow> int \<times> int \<times> int" where
  "timedelta_to_day_hour_minutes time_pos =
     (let week_day = td_days time_pos;
          week_day = (if week_day > 7 then week_day mod 7 else week_day);
          hours = td_seconds time_pos div 3600;
          hours = (if hours > 24 then hours mod 24 else hours);
          minutes = td_seconds time_pos div 60 mod 60
      in (week_day, hours, minutes))"

text \<open>
  \<^verbatim>\<open>timedelta_to_formatted_string\<close> renders \<^verbatim>\<open>'{:02}:{:02}'\<close>; the model keeps the two
  numbers that are printed.
\<close>

definition timedelta_to_formatted_string :: "timedelta \<Rightarrow> int \<times> int" where
  "timedelta_to_formatted_string td =
     (let time_seconds = td_seconds td
      in (time_seconds div 3600, time_seconds div 60 mod 60))"

section \<open>The connection resolver\<close>

text \<open>
  A leg of an itinerary is printed as \<^verbatim>\<open>' {city} {day name} {hh:mm}'\<close>; the model keeps the
  three parts.
\<close>

type_synonym leg = "city \<times> string \<times> (int \<times> int)"

definition pair_options :: "flight list \<Rightarrow> city \<Rightarrow> city \<Rightarrow> flight list" where
  \<comment> \<open>\<^verbatim>\<open>flights[(flights['city_from'] == a) & (flights['city_to'] == b)]\<close>\<close>
  "pair_options flights a b = filter (\<lambda>f. city_from f = a \<and> city_to f = b) flights"

definition same_week_options :: "flight list \<Rightarrow> int \<Rightarrow> int \<Rightarrow> int \<Rightarrow> flight list" where
  \<comment> \<open>\<^verbatim>\<open>options[(options['week_day'] >= day) & (options['time'] >= timedelta(hours, minutes))]\<close>\<close>
  "same_week_options options day hours minutes =
     filter (\<lambda>f. week_day f \<ge> day \<and> time f \<ge> timedelta 0 hours minutes) options"

definition find_nearest_flight ::
  "flight list \<Rightarrow> routes \<Rightarrow> city \<Rightarrow> city \<Rightarrow> timedelta \<Rightarrow> int \<Rightarrow> py_error + (leg \<times> timedelta \<times> int)"
where
  "find_nearest_flight flights routes origin_city destination_city time_pos total_price =
     (let time_pos = time_pos + timedelta 0 3 0;
          (day, hours, minutes) = timedelta_to_day_hour_minutes time_pos;
          options = pair_options flights origin_city destination_city;
          same_week = same_week_options options day hours minutes;
          options = (if length same_week > 0 then same_week else options)
      in case options of
           [] \<Rightarrow> Inl IndexError
         | f # _ \<Rightarrow>
             (case map_of week_days (week_day f) of
                None \<Rightarrow> Inl KeyError
              | Some day_name \<Rightarrow>
                  (let display_time = timedelta_to_formatted_string (time f);
                       connection_flight = (origin_city, day_name, display_time);
                       total_price = total_price + price f;
                       gap = timedelta (week_day f) 0 0 + time f - timedelta day hours minutes;
                       gap = (if length same_week = 0 then gap + timedelta 7 0 0 else gap);
                       time_pos = time_pos + gap
                   in case routes_get routes origin_city destination_city of
                        Inl e \<Rightarrow> Inl e
                      | Inr duration \<Rightarrow> Inr (connection_flight, time_pos + duration, total_price))))"

section \<open>The itinerary assembler\<close>

text \<open>
  One entry of the list returned by \<^verbatim>\<open>find_flights\<close> is the string
  \<^verbatim>\<open>legs + ' -> ' + price + ' (' + travel_time + ')'\<close>; the model keeps the legs, the
  price and the travel time.
\<close>

record itinerary =
  option_flights :: "leg list"
  option_price :: int
  option_travel_time :: timedelta

text \<open>
  The inner \<^verbatim>\<open>while pos < len(cities)\<close> loop of \<^verbatim>\<open>find_flights\<close>: the remaining cities
  \<^verbatim>\<open>cities[pos:]\<close> are consumed one by one, \<open>cur\<close> being the city reached so far (the
  variable \<^verbatim>\<open>city_to\<close> before the iteration). An exception raised by
  \<^verbatim>\<open>find_nearest_flight\<close> is not caught.
\<close>

fun connections ::
  "flight list \<Rightarrow> routes \<Rightarrow> city \<Rightarrow> city list \<Rightarrow> leg list \<Rightarrow> timedelta \<Rightarrow> int
     \<Rightarrow> py_error + (leg list \<times> timedelta \<times> int)"
where
  "connections flights routes cur [] this_option_flights time_since_start this_option_price =
     Inr (this_option_flights, time_since_start, this_option_price)"
| "connections flights routes cur (c # rest) this_option_flights time_since_start this_option_price =
     (case find_nearest_flight flights routes cur c time_since_start this_option_price of
        Inl e \<Rightarrow> Inl e
      | Inr (connection_flight, time_since_start', this_option_price') \<Rightarrow>
          connections flights routes c rest (this_option_flights @ [connection_flight])
            time_since_start' this_option_price')"

text \<open>The body of the \<^verbatim>\<open>for index in range(len(start_options))\<close> loop, for one row.\<close>

definition start_option ::
  "flight list \<Rightarrow> routes \<Rightarrow> city \<Rightarrow> city \<Rightarrow> city list \<Rightarrow> flight \<Rightarrow> py_error + itinerary"
where
  "start_option flights routes city_from0 city_to0 rest row =
     (let this_option_price = price row;
          day = week_day row;
          time_seconds = td_seconds (time row);
          hours = time_seconds div 3600;
          minutes = time_seconds div 60 mod 60
      in case map_of week_days day of
           None \<Rightarrow> Inl KeyError
         | Some display_day \<Rightarrow>
             (let this_option_flights = [(city_from0, display_day, (hours, minutes))];
                  start_time = timedelta day hours minutes
              in case routes_get routes city_from0 city_to0 of
                   Inl e \<Rightarrow> Inl e
                 | Inr flight_duration \<Rightarrow>
                     (case connections flights routes city_to0 rest this_option_flights
                             (start_time + flight_duration) this_option_price of
                        Inl e \<Rightarrow> Inl e
                      | Inr (this_option_flights', time_since_start, this_option_price') \<Rightarrow>
                          Inr \<lparr>option_flights = this_option_flights',
                               option_price = this_option_price',
                               option_travel_time = time_since_start - start_time\<rparr>)))"

text \<open>The \<^verbatim>\<open>for\<close> loop: the first exception ends the whole call.\<close>

fun start_options_loop ::
  "flight list \<Rightarrow> routes \<Rightarrow> city \<Rightarrow> city \<Rightarrow> city list \<Rightarrow> flight list \<Rightarrow> itinerary list
     \<Rightarrow> py_error + itinerary list"
where
  "start_options_loop flights routes c0 c1 rest [] available_flights = Inr available_flights"
| "start_options_loop flights routes c0 c1 rest (row # rows) available_flights =
     (case start_option flights routes c0 c1 rest row of
        Inl e \<Rightarrow> Inl e
      | Inr opt \<Rightarrow> start_options_loop flights routes c0 c1 rest rows (available_flights @ [opt]))"

definition find_flights :: "flight list \<Rightarrow> routes \<Rightarrow> city list \<Rightarrow> py_error + itinerary list" where
  "find_flights flights routes cities =
     (case cities of
        [] \<Rightarrow> Inl IndexError
      | [c0] \<Rightarrow> Inl IndexError
      | c0 # c1 # rest \<Rightarrow>
          start_options_loop flights routes c0 c1 rest (pair_options flights c0 c1) [])"

section \<open>The shortest-hop router\<close>

text \<open>
  The breadth-first search is module-level code (lines 247 to 289). Its variables are the
  dictionaries \<^verbatim>\<open>n_routes\<close> (hop count or \<^verbatim>\<open>None\<close> for every key of \<^verbatim>\<open>routes\<close>) and
  \<^verbatim>\<open>parents\<close>, the deque \<^verbatim>\<open>queue\<close> and the flag \<^verbatim>\<open>path_exists\<close>. Reading a dictionary at
  a missing key raises \<^verbatim>\<open>KeyError\<close>, and \<^verbatim>\<open>None + 1\<close> raises \<^verbatim>\<open>TypeError\<close>.
\<close>

record bfs_state =
  n_routes :: "city \<rightharpoonup> int option"
  parents :: "city \<rightharpoonup> city option"
  queue :: "city list"
  path_exists :: bool

text \<open>
  The \<^verbatim>\<open>for neigh_v in routes[cur_v]\<close> loop over the neighbours still to be visited; it
  stops at the \<^verbatim>\<open>break\<close>.
\<close>

fun visit :: "city \<Rightarrow> city \<Rightarrow> city list \<Rightarrow> bfs_state \<Rightarrow> py_error + bfs_state" where
  "visit end_vertex cur_v [] s = Inr s"
| "visit end_vertex cur_v (neigh_v # rest) s =
     (case n_routes s neigh_v of
        None \<Rightarrow> Inl KeyError
      | Some (Some _) \<Rightarrow> visit end_vertex cur_v rest s
      | Some None \<Rightarrow>
          (case n_routes s cur_v of
             None \<Rightarrow> Inl KeyError
           | Some None \<Rightarrow> Inl TypeError
           | Some (Some n) \<Rightarrow>
               (let s' = s\<lparr>n_routes := (n_routes s)(neigh_v \<mapsto> Some (n + 1)),
                           parents := (parents s)(neigh_v \<mapsto> Some cur_v),
                           queue := queue s @ [neigh_v]\<rparr>
                in if neigh_v = end_vertex then Inr (s'\<lparr>path_exists := True\<rparr>)
                   else visit end_vertex cur_v rest s')))"

text \<open>
  The \<^verbatim>\<open>while queue and not path_exists\<close> loop. The result \<open>None\<close> stands for a loop
  that does not return.
\<close>

partial_function (option) bfs_loop :: "routes \<Rightarrow> city \<Rightarrow> bfs_state \<Rightarrow> (py_error + bfs_state) option"
where [code]:
  "bfs_loop routes end_vertex s =
     (if path_exists s then Some (Inr s)
      else case queue s of
             [] \<Rightarrow> Some (Inr s)
           | cur_v # rest \<Rightarrow>
               (case visit end_vertex cur_v (map fst (routes_row routes cur_v)) (s\<lparr>queue := rest\<rparr>) of
                  Inl e \<Rightarrow> Some (Inl e)
                | Inr s' \<Rightarrow> bfs_loop routes end_vertex s'))"

text \<open>
  The \<^verbatim>\<open>while not parent is None\<close> loop that walks the parent pointers back from the end
  and sums the flight durations.
\<close>

partial_function (option) path_loop ::
  "routes \<Rightarrow> (city \<rightharpoonup> city option) \<Rightarrow> city list \<Rightarrow> city option \<Rightarrow> city \<Rightarrow> timedelta
     \<Rightarrow> (py_error + city list \<times> timedelta) option"
where [code]:
  "path_loop routes prnts path parent next_city total_time_on_board =
     (case parent of
        None \<Rightarrow> Some (Inr (path, total_time_on_board))
      | Some p \<Rightarrow>
          (case routes_get routes p next_city of
             Inl e \<Rightarrow> Some (Inl e)
           | Inr d \<Rightarrow>
               (case prnts p of
                  None \<Rightarrow> Some (Inl KeyError)
                | Some parent' \<Rightarrow>
                    path_loop routes prnts (path @ [p]) parent' p (total_time_on_board + d))))"

text \<open>
  The search as a function of \<^verbatim>\<open>routes\<close> and the two cities entered (lines 247 to 289):
  the test of the keys, the initial dictionaries, the \<^verbatim>\<open>while\<close> loop and the
  reconstruction of \<^verbatim>\<open>path\<close> with \<^verbatim>\<open>total_time_on_board\<close>. \<open>NotFound\<close> stands for the
  message that no route can be built.
\<close>

datatype route_result = NotFound | Found "city list" timedelta

definition initial_state :: "routes \<Rightarrow> city \<Rightarrow> bfs_state" where
  "initial_state routes start_vertex =
     \<lparr>n_routes = (map_of (map (\<lambda>c. (c, None)) (map fst routes)))(start_vertex \<mapsto> Some 0),
      parents = map_of (map (\<lambda>c. (c, None)) (map fst routes)),
      queue = [start_vertex],
      path_exists = False\<rparr>"

definition find_path :: "routes \<Rightarrow> city \<Rightarrow> city \<Rightarrow> (py_error + route_result) option" where
  "find_path routes start_vertex end_vertex =
     (if start_vertex \<notin> set (map fst routes) \<or> end_vertex \<notin> set (map fst routes)
      then Some (Inr NotFound)
      else case bfs_loop routes end_vertex (initial_state routes start_vertex) of
             None \<Rightarrow> None
           | Some (Inl e) \<Rightarrow> Some (Inl e)
           | Some (Inr s) \<Rightarrow>
               (if \<not> path_exists s then Some (Inr NotFound)
                else case parents s end_vertex of
                       None \<Rightarrow> Some (Inl KeyError)
                     | Some parent \<Rightarrow>
                         (case path_loop routes (parents s) [end_vertex] parent end_vertex 0 of
                            None \<Rightarrow> None
                          | Some (Inl e) \<Rightarrow> Some (Inl e)
                          | Some (Inr (path, total_time_on_board)) \<Rightarrow>
                              Some (Inr (Found (rev path) total_time_on_board)))))"

text \<open>
  The whole query: what the script prints for a start and an end city, either that no
  route can be built or the route, the formatted time on board and the options.
\<close>

datatype query_result = Unreachable | Route "city list" "int \<times> int" "itinerary list"

definition query :: "routes \<Rightarrow> flight list \<Rightarrow> city \<Rightarrow> city \<Rightarrow> (py_error + query_result) option" where
  "query routes flights start_vertex end_vertex =
     (case find_path routes start_vertex end_vertex of
        None \<Rightarrow> None
      | Some (Inl e) \<Rightarrow> Some (Inl e)
      | Some (Inr NotFound) \<Rightarrow> Some (Inr Unreachable)
      | Some (Inr (Found path total_time_on_board)) \<Rightarrow>
          (case find_flights flights routes path of
             Inl e \<Rightarrow> Some (Inl e)
           | Inr available_flights \<Rightarrow>
               Some (Inr (Route path (timedelta_to_formatted_string total_time_on_board)
                            available_flights))))"

section \<open>Well-formed inputs and notions of the specification\<close>

text \<open>
  A row of the timetable is well formed when its weekday is one of 1..7 and its time of
  day lies in [0, 24h); the generator \<^verbatim>\<open>make_schedule\<close> only produces such rows.
\<close>

definition timetable_ok :: "flight list \<Rightarrow> bool" where
  "timetable_ok flights =
     list_all (\<lambda>f. 1 \<le> week_day f \<and> week_day f \<le> 7 \<and> 0 \<le> time f \<and> time f < 86400) flights"

text \<open>
  \<^verbatim>\<open>flights.sort_values(by=['city_from', 'city_to', 'week_day', 'time'])\<close>: the rows are in
  ascending lexicographic order of the four columns.
\<close>

definition row_key :: "flight \<Rightarrow> city \<times> city \<times> int \<times> timedelta" where
  "row_key f = (city_from f, city_to f, week_day f, time f)"

definition timetable_sorted :: "flight list \<Rightarrow> bool" where
  "timetable_sorted flights = sorted (map row_key flights)"

text \<open>
  The specification's reading of ``at or after \<open>earliest_allowed\<close> in the rest of the
  week'': the pair (weekday, time of day) compared lexicographically.
\<close>

definition at_or_after :: "int \<Rightarrow> timedelta \<Rightarrow> flight \<Rightarrow> bool" where
  "at_or_after day tod f = (day < week_day f \<or> (week_day f = day \<and> tod \<le> time f))"

text \<open>
  The graph of \<^verbatim>\<open>routes\<close>: \<open>b\<close> is a neighbour of \<open>a\<close> when the loop
  \<^verbatim>\<open>for neigh_v in routes[a]\<close> meets it. A walk is a non-empty list of cities, each the
  neighbour of the one before it; its hop count is its length minus one.
\<close>

definition edge :: "routes \<Rightarrow> city \<Rightarrow> city \<Rightarrow> bool" where
  "edge routes a b = (b \<in> set (map fst (routes_row routes a)))"

fun is_walk :: "routes \<Rightarrow> city list \<Rightarrow> bool" where
  "is_walk routes [] = False"
| "is_walk routes [a] = True"
| "is_walk routes (a # b # rest) = (edge routes a b \<and> is_walk routes (b # rest))"

definition walk_from_to :: "routes \<Rightarrow> city \<Rightarrow> city \<Rightarrow> city list \<Rightarrow> bool" where
  "walk_from_to routes a b p = (is_walk routes p \<and> hd p = a \<and> last p = b)"

text \<open>Every neighbour named in \<^verbatim>\<open>routes\<close> is itself a key of \<^verbatim>\<open>routes\<close>.\<close>

definition graph_closed :: "routes \<Rightarrow> bool" where
  "graph_closed routes =
     list_all (\<lambda>(a, nb). list_all (\<lambda>(b, d). b \<in> set (map fst routes)) nb) routes"

text \<open>
  The airborne time of a path: the sum of \<^verbatim>\<open>routes[a][b]\<close> over its consecutive
  cities, the durations that \<^verbatim>\<open>find_flights\<close> and the path reconstruction add up.
\<close>

fun airborne_time :: "routes \<Rightarrow> city list \<Rightarrow> timedelta" where
  "airborne_time routes (a # b # rest) =
     (case routes_get routes a b of Inl e \<Rightarrow> 0 | Inr d \<Rightarrow> d) + airborne_time routes (b # rest)"
| "airborne_time routes cities = 0"

text \<open>Every consecutive pair of the list has at least one scheduled flight.\<close>

fun legs_scheduled :: "flight list \<Rightarrow> city list \<Rightarrow> bool" where
  "legs_scheduled flights (a # b # rest) =
     (pair_options flights a b \<noteq> [] \<and> legs_scheduled flights (b # rest))"
| "legs_scheduled flights cities = True"

text \<open>Every consecutive pair of the list is an entry of \<^verbatim>\<open>routes\<close>.\<close>

fun legs_in_routes :: "routes \<Rightarrow> city list \<Rightarrow> bool" where
  "legs_in_routes routes (a # b # rest) =
     (map_of (routes_row routes a) b \<noteq> None \<and> legs_in_routes routes (b # rest))"
| "legs_in_routes routes cities = True"

text \<open>
  An option starts with a row of the timetable: its first leg shows the start city and
  the day name and the time of day of that row.
\<close>

definition departs_with :: "city \<Rightarrow> flight \<Rightarrow> itinerary \<Rightarrow> bool" where
  "departs_with c0 row opt =
     (case option_flights opt of
        [] \<Rightarrow> False
      | (c, day_name, hm) # later \<Rightarrow>
          c = c0 \<and> map_of week_days (week_day row) = Some day_name
          \<and> hm = timedelta_to_formatted_string (time row))"

section \<open>Invariants of the search\<close>

text \<open>
  A city is discovered when \<^verbatim>\<open>n_routes\<close> holds a number for it; \<open>hops\<close> reads that
  number.
\<close>

definition disc :: "bfs_state \<Rightarrow> city \<Rightarrow> bool" where
  "disc s x = (\<exists>d. n_routes s x = Some (Some d))"

definition hops :: "bfs_state \<Rightarrow> city \<Rightarrow> int" where
  "hops s x = (case n_routes s x of Some (Some d) \<Rightarrow> d | _ \<Rightarrow> 0)"

text \<open>The state after \<^verbatim>\<open>neigh_v\<close> has been recorded from \<^verbatim>\<open>cur_v\<close>.\<close>

definition discover :: "city \<Rightarrow> city \<Rightarrow> bfs_state \<Rightarrow> bfs_state" where
  "discover cur_v neigh_v s =
     s\<lparr>n_routes := (n_routes s)(neigh_v \<mapsto> Some (hops s cur_v + 1)),
       parents := (parents s)(neigh_v \<mapsto> Some cur_v),
       queue := queue s @ [neigh_v]\<rparr>"

text \<open>
  The dictionaries have the keys of \<^verbatim>\<open>routes\<close>; the start has count 0 and no parent;
  every other discovered city has a discovered parent, one hop closer, of which it is a
  neighbour.
\<close>

definition tree_inv :: "routes \<Rightarrow> city \<Rightarrow> bfs_state \<Rightarrow> bool" where
  "tree_inv routes start_vertex s =
     ((\<forall>x. (n_routes s x \<noteq> None) = (x \<in> set (map fst routes)))
    \<and> n_routes s start_vertex = Some (Some 0)
    \<and> parents s start_vertex = Some None
    \<and> (\<forall>x. disc s x \<longrightarrow> 0 \<le> hops s x)
    \<and> (\<forall>x. disc s x \<and> x \<noteq> start_vertex \<longrightarrow>
          (\<exists>p. parents s x = Some (Some p) \<and> disc s p \<and> edge routes p x
               \<and> hops s x = hops s p + 1)))"

text \<open>
  Across an edge between discovered cities the count grows by at most one.
\<close>

definition edge_inv :: "routes \<Rightarrow> bfs_state \<Rightarrow> bool" where
  "edge_inv routes s =
     (\<forall>x y. disc s x \<and> disc s y \<and> edge routes x y \<longrightarrow> hops s y \<le> hops s x + 1)"

text \<open>
  At the head of the \<^verbatim>\<open>while\<close> loop: the queue holds discovered cities, each once, in
  ascending order of count, the counts differing by at most one; a discovered city that
  is not queued has a count no greater than the queued ones, and all its neighbours are
  discovered.
\<close>

definition head_inv :: "routes \<Rightarrow> bfs_state \<Rightarrow> bool" where
  "head_inv routes s =
     (distinct (queue s)
    \<and> (\<forall>x \<in> set (queue s). disc s x)
    \<and> sorted (map (hops s) (queue s))
    \<and> (\<forall>x \<in> set (queue s). \<forall>y \<in> set (queue s). hops s y \<le> hops s x + 1)
    \<and> (\<forall>x. disc s x \<and> x \<notin> set (queue s) \<longrightarrow>
          (\<forall>y \<in> set (queue s). hops s x \<le> hops s y) \<and> (\<forall>y. edge routes x y \<longrightarrow> disc s y))
    \<and> edge_inv routes s)"

text \<open>Inside the \<^verbatim>\<open>for\<close> loop, while the neighbours of \<^verbatim>\<open>cur_v\<close> are visited.\<close>

definition level_inv :: "routes \<Rightarrow> city \<Rightarrow> bfs_state \<Rightarrow> bool" where
  "level_inv routes cur_v s =
     (disc s cur_v \<and> cur_v \<notin> set (queue s)
    \<and> distinct (queue s)
    \<and> (\<forall>x \<in> set (queue s). disc s x \<and> hops s cur_v \<le> hops s x \<and> hops s x \<le> hops s cur_v + 1)
    \<and> sorted (map (hops s) (queue s))
    \<and> (\<forall>x. disc s x \<and> x \<notin> set (queue s) \<and> x \<noteq> cur_v \<longrightarrow>
          hops s x \<le> hops s cur_v \<and> (\<forall>y. edge routes x y \<longrightarrow> disc s y))
    \<and> edge_inv routes s)"

text \<open>The number of keys not yet discovered plus the length of the queue.\<close>

definition pending :: "routes \<Rightarrow> bfs_state \<Rightarrow> nat" where
  "pending routes s =
     card {x \<in> set (map fst routes). n_routes s x = Some None} + length (queue s)"

text \<open>
  When the flag \<^verbatim>\<open>path_exists\<close> is set, the end differs from the start, is discovered,
  and no walk from the start reaches it in fewer hops than its count.
\<close>

definition found_inv :: "routes \<Rightarrow> city \<Rightarrow> city \<Rightarrow> bfs_state \<Rightarrow> bool" where
  "found_inv routes start_vertex end_vertex s =
     (end_vertex \<noteq> start_vertex \<and> disc s end_vertex
    \<and> (\<forall>w. walk_from_to routes start_vertex end_vertex w \<longrightarrow> hops s end_vertex + 1 \<le> int (length w)))"

section \<open>Example inputs\<close>

text \<open>The network A - B (2h), B - C (3h) with one flight A to B and two flights B to C.\<close>

definition routes_abc :: routes where
  "routes_abc =
     [(''A'', [(''B'', timedelta 0 2 0)]),
      (''B'', [(''A'', timedelta 0 2 0), (''C'', timedelta 0 3 0)]),
      (''C'', [(''B'', timedelta 0 3 0)])]"

definition flights_abc :: "flight list" where
  "flights_abc =
     [\<lparr>city_from = ''A'', city_to = ''B'', week_day = 1, time = timedelta 0 8 0, price = 100\<rparr>,
      \<lparr>city_from = ''B'', city_to = ''C'', week_day = 1, time = timedelta 0 12 0, price = 150\<rparr>,
      \<lparr>city_from = ''B'', city_to = ''C'', week_day = 1, time = timedelta 0 20 0, price = 140\<rparr>]"

text \<open>Flights B to C on Tuesday 09:00 and Wednesday 14:00.\<close>

definition flights_tue_wed :: "flight list" where
  "flights_tue_wed =
     [\<lparr>city_from = ''B'', city_to = ''C'', week_day = 2, time = timedelta 0 9 0, price = 150\<rparr>,
      \<lparr>city_from = ''B'', city_to = ''C'', week_day = 3, time = timedelta 0 14 0, price = 140\<rparr>]"

text \<open>A single flight B to C, on Tuesday 09:00.\<close>

definition flights_tue :: "flight list" where
  "flights_tue =
     [\<lparr>city_from = ''B'', city_to = ''C'', week_day = 2, time = timedelta 0 9 0, price = 150\<rparr>]"

text \<open>A flight A to B and no flight B to C.\<close>

definition flights_ab_only :: "flight list" where
  "flights_ab_only =
     [\<lparr>city_from = ''A'', city_to = ''B'', week_day = 1, time = timedelta 0 8 0, price = 100\<rparr>]"

text \<open>A single flight B to C, on Monday 00:30.\<close>

definition flights_mon_early :: "flight list" where
  "flights_mon_early =
     [\<lparr>city_from = ''B'', city_to = ''C'', week_day = 1, time = timedelta 0 0 30, price = 120\<rparr>]"

text \<open>Two cities joined by one route.\<close>

definition routes_pq :: routes where
  "routes_pq = [(''P'', [(''Q'', timedelta 0 4 0)]), (''Q'', [(''P'', timedelta 0 4 0)])]"

section \<open>Properties\<close>

lemmas time_defs = timedelta_def td_days_def td_seconds_def timedelta_to_day_hour_minutes_def
  timedelta_to_formatted_string_def

lemmas resolver_defs = find_nearest_flight_def pair_options_def same_week_options_def
  week_days_def routes_get_def routes_row_def

subsection \<open>Runs of the program on the example inputs\<close>

text \<open>
  C5. The normalisation is claimed to return a weekday in 1..7 for every timedelta of at
  least one day. A traveller who lands on day 13 at 21:00 is looked up, after the three
  hours of transfer, at day 14, 00:00: 14 is greater than 7 and \<^verbatim>\<open>14 % 7\<close> is 0, so the
  weekday returned is 0, which is no key of \<^verbatim>\<open>week_days\<close>.
\<close>

theorem timedelta_to_day_hour_minutes_day_14:
  "timedelta_to_day_hour_minutes (timedelta 13 21 0 + timedelta 0 3 0) = (0, 0, 0)"
  by (simp add: time_defs)

text \<open>
  C1. With flights from B to C on Tuesday 09:00 and Wednesday 14:00 and an arrival on
  Monday 10:00 (earliest boarding Monday 13:00), the first flight at or after Monday
  13:00 is Tuesday 09:00. The filter of \<^verbatim>\<open>find_nearest_flight\<close> compares weekday and time
  of day separately, drops Tuesday 09:00 because 09:00 is before 13:00, and the function
  returns the Wednesday flight: arrival at C on day 3, 14:00 plus three hours of flight.
\<close>

theorem find_nearest_flight_skips_tuesday:
  "find_nearest_flight flights_tue_wed routes_abc ''B'' ''C'' (timedelta 1 10 0) 0
     = Inr ((''B'', ''Wednesday'', (14, 0)), timedelta 3 14 0 + timedelta 0 3 0, 140)"
  by (simp add: flights_tue_wed_def routes_abc_def resolver_defs time_defs)

text \<open>
  C6. With the single flight from B to C on Tuesday 09:00, an arrival on Monday 10:00
  is sent to the Tuesday of the following week (departure on day 9, 09:00), while the
  later arrival on Tuesday 02:00 departs on day 2, 09:00: a later arrival gets an earlier
  departure.
\<close>

theorem find_nearest_flight_not_monotone:
  "find_nearest_flight flights_tue routes_abc ''B'' ''C'' (timedelta 1 10 0) 0
     = Inr ((''B'', ''Tuesday'', (9, 0)), timedelta 9 9 0 + timedelta 0 3 0, 150)
   \<and> find_nearest_flight flights_tue routes_abc ''B'' ''C'' (timedelta 2 2 0) 0
     = Inr ((''B'', ''Tuesday'', (9, 0)), timedelta 2 9 0 + timedelta 0 3 0, 150)"
  by (simp add: flights_tue_def routes_abc_def resolver_defs time_defs)

text \<open>
  C9. The end-to-end scenario: the query from A to C on the network A - B (2h),
  B - C (3h) returns the path A, B, C with five hours on board and one option, which
  leaves A on Monday 08:00, takes the flight from B on Monday 20:00, costs 240 and lasts
  15 hours. The earliest boarding time at B is Monday 13:00, after the 12:00 flight.
\<close>

theorem query_abc:
  "query routes_abc flights_abc ''A'' ''C''
     = Some (Inr (Route [''A'', ''B'', ''C''] (5, 0)
         [\<lparr>option_flights = [(''A'', ''Monday'', (8, 0)), (''B'', ''Monday'', (20, 0))],
           option_price = 240,
           option_travel_time = timedelta 0 15 0\<rparr>]))
   \<and> timedelta_to_day_hour_minutes (timedelta 1 8 0 + timedelta 0 2 0 + timedelta 0 3 0) = (1, 13, 0)
   \<and> airborne_time routes_abc [''A'', ''B'', ''C''] = timedelta 0 5 0"
  by (simp add: flights_abc_def routes_abc_def resolver_defs time_defs query_def find_path_def
      initial_state_def bfs_loop.simps path_loop.simps find_flights_def start_option_def)

text \<open>
  C3 claims a path of least hop count whenever both cities are keys and the end is
  reachable. From P to P the start is a key and the one-city walk reaches it, yet the
  search reports that no route exists.
\<close>

theorem find_path_same_city_pq:
  "walk_from_to routes_pq ''P'' ''P'' [''P''] \<and> find_path routes_pq ''P'' ''P'' = Some (Inr NotFound)"
  by (simp add: routes_pq_def walk_from_to_def find_path_def initial_state_def bfs_loop.simps
      routes_row_def)

text \<open>
  C8 claims the one-city path for a query from a key to itself. From A to A the start is
  never recorded as a neighbour, and the search reports that no route exists.
\<close>

theorem find_path_same_city_abc:
  "''A'' \<in> set (map fst routes_abc) \<and> find_path routes_abc ''A'' ''A'' = Some (Inr NotFound)"
  by (simp add: routes_abc_def find_path_def initial_state_def bfs_loop.simps routes_row_def)

text \<open>
  C4 claims that a leg without flights only drops a candidate. On a path whose second
  leg has no scheduled flight, the first leg has one candidate, and \<^verbatim>\<open>find_flights\<close>
  ends in \<^verbatim>\<open>IndexError\<close> instead of returning a shorter list.
\<close>

theorem find_flights_missing_leg_abc:
  "pair_options flights_ab_only ''A'' ''B'' \<noteq> [] \<and> pair_options flights_ab_only ''B'' ''C'' = []
   \<and> find_flights flights_ab_only routes_abc [''A'', ''B'', ''C''] = Inl IndexError"
  by (simp add: flights_ab_only_def routes_abc_def resolver_defs time_defs find_flights_def
      start_option_def)

lemma hm_le: "(s::int) div 3600 * 3600 + s div 60 mod 60 * 60 \<le> s"
proof -
  have "s mod 3600 = 60 * (s div 60 mod 60) + s mod 60"
    using zmod_zmult2_eq [of 60 s 60] by simp
  moreover have "s = s div 3600 * 3600 + s mod 3600" by simp
  moreover have "0 \<le> s mod 60" by simp
  ultimately show ?thesis by linarith
qed

lemma normalise_eq:
  "timedelta_to_day_hour_minutes t =
     ((if 7 < t div 86400 then t div 86400 mod 7 else t div 86400),
      t mod 86400 div 3600, t mod 86400 div 60 mod 60)"
proof -
  have "t mod 86400 < 86400" by simp
  then have "t mod 86400 div 3600 < 24" by linarith
  then show ?thesis
    by (simp add: timedelta_to_day_hour_minutes_def td_days_def td_seconds_def Let_def)
qed

lemma normalise_bounds:
  assumes "timedelta_to_day_hour_minutes t = (day, hours, minutes)"
  shows "day \<le> 7" and "0 \<le> timedelta 0 hours minutes" and "timedelta 0 hours minutes < 86400"
    and "timedelta 0 hours minutes \<le> td_seconds t"
proof -
  define s where "s = t mod 86400"
  have s: "0 \<le> s" "s < 86400" by (simp_all add: s_def)
  from assms have d: "day = (if 7 < t div 86400 then t div 86400 mod 7 else t div 86400)"
    and h: "hours = s div 3600" and m: "minutes = s div 60 mod 60"
    by (simp_all add: normalise_eq s_def)
  have "t div 86400 mod 7 < 7" by simp
  then have "t div 86400 mod 7 \<le> 7" by (rule order.strict_implies_order)
  then show "day \<le> 7" unfolding d by simp
  have "0 \<le> s div 3600" using s by simp
  moreover have "0 \<le> s div 60 mod 60" by simp
  ultimately show "0 \<le> timedelta 0 hours minutes" unfolding h m timedelta_def by simp
  have le: "s div 3600 * 3600 + s div 60 mod 60 * 60 \<le> s" by (rule hm_le)
  then show "timedelta 0 hours minutes \<le> td_seconds t"
    unfolding h m timedelta_def td_seconds_def s_def by simp
  from le s show "timedelta 0 hours minutes < 86400"
    unfolding h m timedelta_def by simp
qed

lemma week_days_defined:
  assumes "1 \<le> d" "d \<le> 7"
  shows "\<exists>name. map_of week_days d = Some name"
proof -
  from assms have "d = 1 \<or> d = 2 \<or> d = 3 \<or> d = 4 \<or> d = 5 \<or> d = 6 \<or> d = 7" by arith
  then show ?thesis by (auto simp: week_days_def)
qed

lemma timetable_okD:
  "timetable_ok flights \<Longrightarrow> f \<in> set flights \<Longrightarrow>
     1 \<le> week_day f \<and> week_day f \<le> 7 \<and> 0 \<le> time f \<and> time f < 86400"
  by (simp add: timetable_ok_def list_all_iff)

lemma pair_options_subset: "f \<in> set (pair_options flights a b) \<Longrightarrow> f \<in> set flights"
  by (simp add: pair_options_def)

lemma same_week_subset: "f \<in> set (same_week_options opts d h m) \<Longrightarrow> f \<in> set opts"
  by (simp add: same_week_options_def)

lemma same_week_later:
  "f \<in> set (same_week_options opts d h m) \<Longrightarrow> d \<le> week_day f \<and> timedelta 0 h m \<le> time f"
  by (simp add: same_week_options_def)

text \<open>The resolver with the normalised boarding time named.\<close>

lemma find_nearest_flight_unfold:
  assumes "timedelta_to_day_hour_minutes (t + timedelta 0 3 0) = (day, hours, minutes)"
  shows "find_nearest_flight flights routes a b t p =
     (case (if same_week_options (pair_options flights a b) day hours minutes = []
            then pair_options flights a b
            else same_week_options (pair_options flights a b) day hours minutes) of
        [] \<Rightarrow> Inl IndexError
      | f # _ \<Rightarrow>
          (case map_of week_days (week_day f) of
             None \<Rightarrow> Inl KeyError
           | Some day_name \<Rightarrow>
               (case routes_get routes a b of
                  Inl e \<Rightarrow> Inl e
                | Inr d \<Rightarrow>
                    Inr ((a, day_name, timedelta_to_formatted_string (time f)),
                         t + timedelta 0 3 0
                           + (timedelta (week_day f) 0 0 + time f - timedelta day hours minutes
                              + (if same_week_options (pair_options flights a b) day hours minutes = []
                                 then timedelta 7 0 0 else 0))
                           + d,
                         p + price f))))"
  unfolding find_nearest_flight_def using assms
  by (simp add: Let_def split: list.split option.split sum.split)

lemma find_nearest_flight_no_options:
  assumes "pair_options flights a b = []"
  shows "find_nearest_flight flights routes a b t p = Inl IndexError"
proof -
  obtain day hours minutes
    where n: "timedelta_to_day_hour_minutes (t + timedelta 0 3 0) = (day, hours, minutes)"
    by (cases "timedelta_to_day_hour_minutes (t + timedelta 0 3 0)") auto
  have "same_week_options [] day hours minutes = []" by (simp add: same_week_options_def)
  with assms show ?thesis by (simp add: find_nearest_flight_unfold [OF n])
qed

text \<open>The waiting time is never negative on a well-formed timetable.\<close>

lemma gap_same_week:
  assumes "day \<le> week_day f" "timedelta 0 hours minutes \<le> time f"
  shows "0 \<le> timedelta (week_day f) 0 0 + time f - timedelta day hours minutes"
  using assms by (simp add: timedelta_def)

lemma gap_next_week:
  assumes "1 \<le> week_day f" "0 \<le> time f" "day \<le> 7" "timedelta 0 hours minutes < 86400"
  shows "0 \<le> timedelta (week_day f) 0 0 + time f - timedelta day hours minutes + timedelta 7 0 0"
  using assms by (simp add: timedelta_def)

lemma find_nearest_flight_arrival:
  assumes ok: "timetable_ok flights"
    and r: "find_nearest_flight flights routes a b t p = Inr (leg, t', p')"
  shows "\<exists>d. routes_get routes a b = Inr d \<and> t + timedelta 0 3 0 + d \<le> t'"
proof -
  obtain day hours minutes
    where n: "timedelta_to_day_hour_minutes (t + timedelta 0 3 0) = (day, hours, minutes)"
    by (cases "timedelta_to_day_hour_minutes (t + timedelta 0 3 0)") auto
  let ?opts = "pair_options flights a b"
  let ?same = "same_week_options ?opts day hours minutes"
  show ?thesis
  proof (cases "?same = []")
    case True
    with r obtain f fs day_name d where opts: "?opts = f # fs"
      and d: "routes_get routes a b = Inr d"
      and t': "t' = t + timedelta 0 3 0
                 + (timedelta (week_day f) 0 0 + time f - timedelta day hours minutes + timedelta 7 0 0) + d"
      by (auto simp: find_nearest_flight_unfold [OF n] split: list.splits option.splits sum.splits)
    from opts have "f \<in> set ?opts" by simp
    then have "f \<in> set flights" by (rule pair_options_subset)
    with ok have "1 \<le> week_day f" "0 \<le> time f" by (auto dest: timetable_okD)
    then have "0 \<le> timedelta (week_day f) 0 0 + time f - timedelta day hours minutes + timedelta 7 0 0"
      using normalise_bounds(1,3) [OF n] by (rule gap_next_week)
    with d t' show ?thesis by simp
  next
    case False
    with r obtain f fs day_name d where same: "?same = f # fs"
      and d: "routes_get routes a b = Inr d"
      and t': "t' = t + timedelta 0 3 0
                 + (timedelta (week_day f) 0 0 + time f - timedelta day hours minutes) + d"
      by (auto simp: find_nearest_flight_unfold [OF n] split: list.splits option.splits sum.splits)
    from same have "f \<in> set ?same" by simp
    then have "day \<le> week_day f" "timedelta 0 hours minutes \<le> time f"
      by (auto dest: same_week_later)
    then have "0 \<le> timedelta (week_day f) 0 0 + time f - timedelta day hours minutes"
      by (rule gap_same_week)
    with d t' show ?thesis by simp
  qed
qed

text \<open>The resolver returns whenever the pair has a flight and an entry of \<^verbatim>\<open>routes\<close>.\<close>

lemma find_nearest_flight_returns:
  assumes ok: "timetable_ok flights"
    and opts: "pair_options flights a b \<noteq> []"
    and rt: "map_of (routes_row routes a) b \<noteq> None"
  shows "\<exists>r. find_nearest_flight flights routes a b t p = Inr r"
proof -
  obtain day hours minutes
    where n: "timedelta_to_day_hour_minutes (t + timedelta 0 3 0) = (day, hours, minutes)"
    by (cases "timedelta_to_day_hour_minutes (t + timedelta 0 3 0)") auto
  let ?opts = "pair_options flights a b"
  let ?same = "same_week_options ?opts day hours minutes"
  let ?chosen = "if ?same = [] then ?opts else ?same"
  from opts obtain f fs where c: "?chosen = f # fs" by (cases ?chosen) (auto split: if_splits)
  then have "f \<in> set ?chosen" by simp
  then have "f \<in> set flights"
    by (auto split: if_splits intro: pair_options_subset dest: same_week_subset)
  with ok have "1 \<le> week_day f" "week_day f \<le> 7" by (auto dest: timetable_okD)
  then obtain day_name where dn: "map_of week_days (week_day f) = Some day_name"
    using week_days_defined by blast
  from rt obtain d where d: "routes_get routes a b = Inr d" by (auto simp: routes_get_def)
  show ?thesis unfolding find_nearest_flight_unfold [OF n] c using dn d by simp
qed

subsection \<open>The assembler\<close>

lemma connections_arrival:
  assumes "timetable_ok flights"
    and "connections flights routes cur rest ls t p = Inr (ls', t', p')"
  shows "t + airborne_time routes (cur # rest) \<le> t'"
  using assms(2)
proof (induction rest arbitrary: cur ls t p)
  case Nil
  then show ?case by simp
next
  case (Cons c rest)
  from Cons.prems obtain leg t1 p1
    where step: "find_nearest_flight flights routes cur c t p = Inr (leg, t1, p1)"
      and tail: "connections flights routes c rest (ls @ [leg]) t1 p1 = Inr (ls', t', p')"
    by (auto split: sum.splits)
  from find_nearest_flight_arrival [OF assms(1) step]
  obtain d where d: "routes_get routes cur c = Inr d" and le: "t + timedelta 0 3 0 + d \<le> t1"
    by blast
  from Cons.IH [OF tail] have "t1 + airborne_time routes (c # rest) \<le> t'" .
  with d le show ?case by (simp add: timedelta_def)
qed

lemma connections_legs:
  assumes "connections flights routes cur rest ls t p = Inr (ls', t', p')"
  shows "\<exists>extra. ls' = ls @ extra \<and> length extra = length rest"
  using assms
proof (induction rest arbitrary: cur ls t p)
  case Nil
  then show ?case by simp
next
  case (Cons c rest)
  from Cons.prems obtain leg t1 p1
    where tail: "connections flights routes c rest (ls @ [leg]) t1 p1 = Inr (ls', t', p')"
    by (auto split: sum.splits)
  from Cons.IH [OF tail] obtain extra where "ls' = (ls @ [leg]) @ extra" "length extra = length rest"
    by blast
  then have "ls' = ls @ (leg # extra) \<and> length (leg # extra) = length (c # rest)" by simp
  then show ?case by blast
qed

lemma connections_returns:
  assumes "timetable_ok flights"
    and "legs_scheduled flights (cur # rest)" and "legs_in_routes routes (cur # rest)"
  shows "\<exists>r. connections flights routes cur rest ls t p = Inr r"
  using assms(2,3)
proof (induction rest arbitrary: cur ls t p)
  case Nil
  then show ?case by simp
next
  case (Cons c rest)
  from Cons.prems have "pair_options flights cur c \<noteq> []" "map_of (routes_row routes cur) c \<noteq> None"
    by simp_all
  from find_nearest_flight_returns [OF assms(1) this]
  obtain leg t1 p1 where step: "find_nearest_flight flights routes cur c t p = Inr (leg, t1, p1)"
    by (metis prod_cases3)
  from Cons.prems have "legs_scheduled flights (c # rest)" "legs_in_routes routes (c # rest)"
    by simp_all
  from Cons.IH [OF this] obtain r where "connections flights routes c rest (ls @ [leg]) t1 p1 = Inr r"
    by blast
  with step show ?case by (cases r) simp
qed

lemma connections_raises:
  assumes "\<not> legs_scheduled flights (cur # rest)"
  shows "\<exists>e. connections flights routes cur rest ls t p = Inl e"
  using assms
proof (induction rest arbitrary: cur ls t p)
  case Nil
  then show ?case by simp
next
  case (Cons c rest)
  show ?case
  proof (cases "find_nearest_flight flights routes cur c t p")
    case (Inl e)
    then show ?thesis by simp
  next
    case (Inr r)
    obtain leg t1 p1 where r: "r = (leg, t1, p1)" by (cases r) auto
    have "pair_options flights cur c \<noteq> []"
      using Inr find_nearest_flight_no_options [of flights cur c routes t p] by auto
    with Cons.prems have "\<not> legs_scheduled flights (c # rest)" by simp
    from Cons.IH [OF this] obtain e where "connections flights routes c rest (ls @ [leg]) t1 p1 = Inl e"
      by blast
    with Inr r show ?thesis by simp
  qed
qed

lemma connections_raises_IndexError:
  assumes "timetable_ok flights" and "legs_in_routes routes (cur # rest)"
    and "\<not> legs_scheduled flights (cur # rest)"
  shows "connections flights routes cur rest ls t p = Inl IndexError"
  using assms(2,3)
proof (induction rest arbitrary: cur ls t p)
  case Nil
  then show ?case by simp
next
  case (Cons c rest)
  show ?case
  proof (cases "pair_options flights cur c = []")
    case True
    then show ?thesis by (simp add: find_nearest_flight_no_options)
  next
    case False
    from Cons.prems have "map_of (routes_row routes cur) c \<noteq> None" by simp
    from find_nearest_flight_returns [OF assms(1) False this]
    obtain leg t1 p1 where step: "find_nearest_flight flights routes cur c t p = Inr (leg, t1, p1)"
      by (metis prod_cases3)
    from Cons.prems False have "legs_in_routes routes (c # rest)" "\<not> legs_scheduled flights (c # rest)"
      by simp_all
    from Cons.IH [OF this] have "connections flights routes c rest (ls @ [leg]) t1 p1 = Inl IndexError" .
    with step show ?thesis by simp
  qed
qed

lemma start_option_unfold:
  "start_option flights routes c0 c1 rest row =
     (case map_of week_days (week_day row) of
        None \<Rightarrow> Inl KeyError
      | Some day_name \<Rightarrow>
          (case routes_get routes c0 c1 of
             Inl e \<Rightarrow> Inl e
           | Inr d \<Rightarrow>
               (case connections flights routes c1 rest
                       [(c0, day_name, timedelta_to_formatted_string (time row))]
                       (timedelta (week_day row) (fst (timedelta_to_formatted_string (time row)))
                            (snd (timedelta_to_formatted_string (time row))) + d)
                       (price row) of
                  Inl e \<Rightarrow> Inl e
                | Inr (ls, t, p) \<Rightarrow>
                    Inr \<lparr>option_flights = ls, option_price = p,
                         option_travel_time =
                           t - timedelta (week_day row) (fst (timedelta_to_formatted_string (time row)))
                                 (snd (timedelta_to_formatted_string (time row)))\<rparr>)))"
  by (simp add: start_option_def timedelta_to_formatted_string_def Let_def
      split: option.split sum.split prod.split)

lemma start_option_travel_time:
  assumes "timetable_ok flights"
    and "start_option flights routes c0 c1 rest row = Inr opt"
  shows "airborne_time routes (c0 # c1 # rest) \<le> option_travel_time opt"
proof -
  define start_time where
    "start_time = timedelta (week_day row) (fst (timedelta_to_formatted_string (time row)))
                            (snd (timedelta_to_formatted_string (time row)))"
  from assms(2) obtain d ls t p
    where d: "routes_get routes c0 c1 = Inr d"
      and c: "connections flights routes c1 rest ls (start_time + d) p = Inr (option_flights opt, t, option_price opt)"
      and tt: "option_travel_time opt = t - start_time"
    unfolding start_option_unfold start_time_def
    by (auto split: option.splits sum.splits)
  from connections_arrival [OF assms(1) c] have "start_time + d + airborne_time routes (c1 # rest) \<le> t" .
  with d tt show ?thesis by simp
qed

lemma start_option_legs:
  assumes "start_option flights routes c0 c1 rest row = Inr opt"
  shows "departs_with c0 row opt \<and> length (option_flights opt) = length rest + 1"
proof -
  from assms obtain day_name t0 t p
    where dn: "map_of week_days (week_day row) = Some day_name"
      and c: "connections flights routes c1 rest
                [(c0, day_name, timedelta_to_formatted_string (time row))]
                t0 (price row) = Inr (option_flights opt, t, p)"
    unfolding start_option_unfold
    by (auto split: option.splits sum.splits)
  from connections_legs [OF c] obtain extra
    where "option_flights opt = [(c0, day_name, timedelta_to_formatted_string (time row))] @ extra"
      and "length extra = length rest"
    by blast
  with dn show ?thesis
    by (simp add: departs_with_def)
qed

lemma start_option_returns:
  assumes "timetable_ok flights" and "row \<in> set flights"
    and "legs_scheduled flights (c1 # rest)" and "legs_in_routes routes (c0 # c1 # rest)"
  shows "\<exists>opt. start_option flights routes c0 c1 rest row = Inr opt"
proof -
  from assms(1,2) have "1 \<le> week_day row" "week_day row \<le> 7" by (auto dest: timetable_okD)
  then obtain day_name where dn: "map_of week_days (week_day row) = Some day_name"
    using week_days_defined by blast
  from assms(4) obtain d where d: "routes_get routes c0 c1 = Inr d"
    by (auto simp: routes_get_def)
  from assms(4) have "legs_in_routes routes (c1 # rest)" by simp
  from connections_returns [OF assms(1,3) this]
  obtain r where "connections flights routes c1 rest
                       [(c0, day_name, timedelta_to_formatted_string (time row))]
                       (timedelta (week_day row) (fst (timedelta_to_formatted_string (time row)))
                            (snd (timedelta_to_formatted_string (time row))) + d)
                       (price row) = Inr r"
    by blast
  then show ?thesis unfolding start_option_unfold using dn d by (cases r) simp
qed

lemma start_options_loop_Inr:
  assumes "start_options_loop flights routes c0 c1 rest rows acc = Inr opts"
  shows "\<exists>new. opts = acc @ new
           \<and> list_all2 (\<lambda>row opt. start_option flights routes c0 c1 rest row = Inr opt) rows new"
  using assms
proof (induction rows arbitrary: acc)
  case Nil
  then show ?case by simp
next
  case (Cons row rows)
  from Cons.prems obtain opt where o: "start_option flights routes c0 c1 rest row = Inr opt"
    and tail: "start_options_loop flights routes c0 c1 rest rows (acc @ [opt]) = Inr opts"
    by (auto split: sum.splits)
  from Cons.IH [OF tail] obtain new where "opts = (acc @ [opt]) @ new"
    and "list_all2 (\<lambda>row opt. start_option flights routes c0 c1 rest row = Inr opt) rows new"
    by blast
  with o have "opts = acc @ (opt # new)
      \<and> list_all2 (\<lambda>row opt. start_option flights routes c0 c1 rest row = Inr opt) (row # rows) (opt # new)"
    by simp
  then show ?case by blast
qed

lemma start_options_loop_returns:
  assumes "\<forall>row \<in> set rows. \<exists>opt. start_option flights routes c0 c1 rest row = Inr opt"
  shows "\<exists>opts. start_options_loop flights routes c0 c1 rest rows acc = Inr opts"
  using assms
proof (induction rows arbitrary: acc)
  case Nil
  then show ?case by simp
next
  case (Cons row rows)
  then obtain opt where o: "start_option flights routes c0 c1 rest row = Inr opt" by auto
  from Cons have "\<exists>opts. start_options_loop flights routes c0 c1 rest rows (acc @ [opt]) = Inr opts"
    by simp
  with o show ?case by simp
qed

lemma start_option_raises:
  assumes "\<not> legs_scheduled flights (c1 # rest)"
  shows "\<exists>e. start_option flights routes c0 c1 rest row = Inl e"
proof (cases "map_of week_days (week_day row)")
  case None
  then show ?thesis unfolding start_option_unfold by simp
next
  case (Some day_name)
  show ?thesis
  proof (cases "routes_get routes c0 c1")
    case (Inl e)
    with Some show ?thesis unfolding start_option_unfold by simp
  next
    case (Inr d)
    from connections_raises [OF assms]
    obtain e where "connections flights routes c1 rest
                       [(c0, day_name, timedelta_to_formatted_string (time row))]
                       (timedelta (week_day row) (fst (timedelta_to_formatted_string (time row)))
                            (snd (timedelta_to_formatted_string (time row))) + d)
                       (price row) = Inl e"
      by blast
    with Some Inr show ?thesis unfolding start_option_unfold by simp
  qed
qed

lemma start_options_loop_raises:
  assumes "start_option flights routes c0 c1 rest row = Inl e"
  shows "start_options_loop flights routes c0 c1 rest (row # rows) acc = Inl e"
  using assms by simp

text \<open>
  C7. For a path whose first leg has k scheduled flights, \<^verbatim>\<open>find_flights\<close> returns at
  most k options, and the travel time of every returned option (final arrival minus
  initial departure) is at least the airborne time of the path. The rows of the
  timetable are well formed.
\<close>

theorem find_flights_bound:
  assumes "timetable_ok flights"
    and "find_flights flights routes (c0 # c1 # rest) = Inr opts"
  shows "length opts \<le> length (pair_options flights c0 c1)
       \<and> (\<forall>opt \<in> set opts. airborne_time routes (c0 # c1 # rest) \<le> option_travel_time opt)"
proof -
  from assms(2)
  have "start_options_loop flights routes c0 c1 rest (pair_options flights c0 c1) [] = Inr opts"
    by (simp add: find_flights_def)
  from start_options_loop_Inr [OF this]
  have rel: "list_all2 (\<lambda>row opt. start_option flights routes c0 c1 rest row = Inr opt)
               (pair_options flights c0 c1) opts"
    by simp
  then have len: "length opts = length (pair_options flights c0 c1)"
    by (simp add: list_all2_lengthD)
  have "airborne_time routes (c0 # c1 # rest) \<le> option_travel_time opt" if "opt \<in> set opts" for opt
  proof -
    from that rel obtain row where "start_option flights routes c0 c1 rest row = Inr opt"
      by (auto simp: list_all2_conv_all_nth in_set_conv_nth)
    with assms(1) show ?thesis by (rule start_option_travel_time)
  qed
  with len show ?thesis by simp
qed

text \<open>
  C10. For a path of at least two cities in which every consecutive pair has a scheduled
  flight (and is an entry of \<^verbatim>\<open>routes\<close>, the rows of the timetable being well formed),
  \<^verbatim>\<open>find_flights\<close> returns exactly one option per row of the timetable filtered to the
  first edge, in the order of the rows: the i-th option starts with the i-th row, and
  has one leg per edge of the path.
\<close>

theorem find_flights_one_option_per_row:
  assumes "timetable_ok flights"
    and "legs_scheduled flights (c0 # c1 # rest)"
    and "legs_in_routes routes (c0 # c1 # rest)"
  shows "\<exists>opts. find_flights flights routes (c0 # c1 # rest) = Inr opts
       \<and> length opts = length (pair_options flights c0 c1)
       \<and> list_all2 (departs_with c0) (pair_options flights c0 c1) opts
       \<and> (\<forall>opt \<in> set opts. length (option_flights opt) = length rest + 1)"
proof -
  let ?rows = "pair_options flights c0 c1"
  let ?R = "\<lambda>row opt. start_option flights routes c0 c1 rest row = Inr opt"
  from assms(2) have sched: "legs_scheduled flights (c1 # rest)" by simp
  have "\<exists>opt. start_option flights routes c0 c1 rest row = Inr opt" if "row \<in> set ?rows" for row
  proof -
    from that have "row \<in> set flights" by (rule pair_options_subset)
    from start_option_returns [OF assms(1) this sched assms(3)] show ?thesis .
  qed
  then have "\<forall>row \<in> set ?rows. \<exists>opt. start_option flights routes c0 c1 rest row = Inr opt"
    by blast
  from start_options_loop_returns [OF this]
  obtain opts where loop: "start_options_loop flights routes c0 c1 rest ?rows [] = Inr opts"
    by blast
  from start_options_loop_Inr [OF loop] have rel: "list_all2 ?R ?rows opts" by simp
  have "list_all2 (departs_with c0) ?rows opts"
    using rel by (rule list_all2_mono) (simp add: start_option_legs)
  moreover have "length (option_flights opt) = length rest + 1" if "opt \<in> set opts" for opt
  proof -
    from that rel obtain row where "start_option flights routes c0 c1 rest row = Inr opt"
      by (auto simp: list_all2_conv_all_nth in_set_conv_nth)
    then show ?thesis by (simp add: start_option_legs)
  qed
  moreover from rel have "length opts = length ?rows" by (simp add: list_all2_lengthD)
  moreover from loop have "find_flights flights routes (c0 # c1 # rest) = Inr opts"
    by (simp add: find_flights_def)
  ultimately show ?thesis by blast
qed

text \<open>
  C4, as the code has it. When the pair of a leg has no scheduled flight,
  \<^verbatim>\<open>find_nearest_flight\<close> raises \<^verbatim>\<open>IndexError\<close>. \<^verbatim>\<open>find_flights\<close> does not catch it: when
  the first leg has a scheduled flight and a later leg has none, the call raises and
  returns no list (the exception is that \<^verbatim>\<open>IndexError\<close> when the rows are well formed
  and the legs are entries of \<^verbatim>\<open>routes\<close>). The result is the empty list exactly when
  the first leg has no scheduled flight.
\<close>

theorem find_flights_missing_leg:
  "(pair_options flights a b = [] \<longrightarrow> find_nearest_flight flights routes a b t p = Inl IndexError)
 \<and> (pair_options flights c0 c1 \<noteq> [] \<and> \<not> legs_scheduled flights (c1 # rest)
      \<longrightarrow> (\<exists>e. find_flights flights routes (c0 # c1 # rest) = Inl e))
 \<and> (pair_options flights c0 c1 \<noteq> [] \<and> \<not> legs_scheduled flights (c1 # rest)
      \<and> timetable_ok flights \<and> legs_in_routes routes (c0 # c1 # rest)
      \<longrightarrow> find_flights flights routes (c0 # c1 # rest) = Inl IndexError)
 \<and> ((find_flights flights routes (c0 # c1 # rest) = Inr []) = (pair_options flights c0 c1 = []))"
proof (intro conjI impI)
  assume "pair_options flights a b = []"
  then show "find_nearest_flight flights routes a b t p = Inl IndexError"
    by (rule find_nearest_flight_no_options)
next
  assume a: "pair_options flights c0 c1 \<noteq> [] \<and> \<not> legs_scheduled flights (c1 # rest)"
  then obtain row rows where rows: "pair_options flights c0 c1 = row # rows"
    by (cases "pair_options flights c0 c1") auto
  from a have "\<exists>e. start_option flights routes c0 c1 rest row = Inl e"
    by (simp add: start_option_raises)
  then show "\<exists>e. find_flights flights routes (c0 # c1 # rest) = Inl e"
    by (auto simp: find_flights_def rows)
next
  assume a: "pair_options flights c0 c1 \<noteq> [] \<and> \<not> legs_scheduled flights (c1 # rest)
      \<and> timetable_ok flights \<and> legs_in_routes routes (c0 # c1 # rest)"
  then obtain row rows where rows: "pair_options flights c0 c1 = row # rows"
    by (cases "pair_options flights c0 c1") auto
  then have "row \<in> set (pair_options flights c0 c1)" by simp
  then have "row \<in> set flights" by (rule pair_options_subset)
  with a have "1 \<le> week_day row" "week_day row \<le> 7" by (auto dest: timetable_okD)
  then obtain day_name where dn: "map_of week_days (week_day row) = Some day_name"
    using week_days_defined by blast
  from a obtain d where d: "routes_get routes c0 c1 = Inr d"
    by (auto simp: routes_get_def)
  from a have "legs_in_routes routes (c1 # rest)" by simp
  with a have "connections flights routes c1 rest ls t' p' = Inl IndexError" for ls t' p'
    by (simp add: connections_raises_IndexError)
  then have "start_option flights routes c0 c1 rest row = Inl IndexError"
    unfolding start_option_unfold using dn d by simp
  then show "find_flights flights routes (c0 # c1 # rest) = Inl IndexError"
    by (simp add: find_flights_def rows)
next
  show "(find_flights flights routes (c0 # c1 # rest) = Inr []) = (pair_options flights c0 c1 = [])"
  proof
    assume "find_flights flights routes (c0 # c1 # rest) = Inr []"
    then have "start_options_loop flights routes c0 c1 rest (pair_options flights c0 c1) [] = Inr []"
      by (simp add: find_flights_def)
    from start_options_loop_Inr [OF this]
    have "list_all2 (\<lambda>row opt. start_option flights routes c0 c1 rest row = Inr opt)
            (pair_options flights c0 c1) []"
      by simp
    then show "pair_options flights c0 c1 = []" by simp
  next
    assume "pair_options flights c0 c1 = []"
    then show "find_flights flights routes (c0 # c1 # rest) = Inr []"
      by (simp add: find_flights_def)
  qed
qed

theorem find_flights_bound_witness:
  "timetable_ok flights_abc
 \<and> find_flights flights_abc routes_abc [''A'', ''B'', ''C'']
     = Inr [\<lparr>option_flights = [(''A'', ''Monday'', (8, 0)), (''B'', ''Monday'', (20, 0))],
             option_price = 240, option_travel_time = timedelta 0 15 0\<rparr>]
 \<and> length [\<lparr>option_flights = [(''A'', ''Monday'', (8, 0)), (''B'', ''Monday'', (20, 0))],
             option_price = 240, option_travel_time = timedelta 0 15 0\<rparr>]
     \<le> length (pair_options flights_abc ''A'' ''B'')
 \<and> airborne_time routes_abc [''A'', ''B'', ''C'']
     \<le> option_travel_time \<lparr>option_flights = [(''A'', ''Monday'', (8, 0)), (''B'', ''Monday'', (20, 0))],
             option_price = 240, option_travel_time = timedelta 0 15 0\<rparr>"
proof -
  have ok: "timetable_ok flights_abc"
    by (simp add: timetable_ok_def flights_abc_def timedelta_def)
  have run: "find_flights flights_abc routes_abc [''A'', ''B'', ''C'']
     = Inr [\<lparr>option_flights = [(''A'', ''Monday'', (8, 0)), (''B'', ''Monday'', (20, 0))],
             option_price = 240, option_travel_time = timedelta 0 15 0\<rparr>]"
    by (simp add: flights_abc_def routes_abc_def resolver_defs time_defs find_flights_def
        start_option_def)
  from find_flights_bound [OF ok run] ok run show ?thesis by simp
qed

theorem find_flights_one_option_per_row_witness:
  "timetable_ok flights_abc
 \<and> legs_scheduled flights_abc [''A'', ''B'', ''C'']
 \<and> legs_in_routes routes_abc [''A'', ''B'', ''C'']
 \<and> (\<exists>opts. find_flights flights_abc routes_abc [''A'', ''B'', ''C''] = Inr opts
       \<and> length opts = length (pair_options flights_abc ''A'' ''B'')
       \<and> list_all2 (departs_with ''A'') (pair_options flights_abc ''A'' ''B'') opts
       \<and> (\<forall>opt \<in> set opts. length (option_flights opt) = length [''C''] + 1))"
proof -
  have ok: "timetable_ok flights_abc"
    by (simp add: timetable_ok_def flights_abc_def timedelta_def)
  have sched: "legs_scheduled flights_abc [''A'', ''B'', ''C'']"
    by (simp add: flights_abc_def pair_options_def)
  have rt: "legs_in_routes routes_abc [''A'', ''B'', ''C'']"
    by (simp add: routes_abc_def routes_row_def)
  from find_flights_one_option_per_row [OF ok sched rt] ok sched rt show ?thesis by blast
qed

theorem find_flights_missing_leg_witness:
  "pair_options flights_ab_only ''B'' ''C'' = []
 \<and> find_nearest_flight flights_ab_only routes_abc ''B'' ''C'' (timedelta 1 10 0) 100 = Inl IndexError
 \<and> pair_options flights_ab_only ''A'' ''B'' \<noteq> []
 \<and> \<not> legs_scheduled flights_ab_only [''B'', ''C'']
 \<and> timetable_ok flights_ab_only
 \<and> legs_in_routes routes_abc [''A'', ''B'', ''C'']
 \<and> find_flights flights_ab_only routes_abc [''A'', ''B'', ''C''] = Inl IndexError
 \<and> pair_options flights_tue ''A'' ''B'' = []
 \<and> find_flights flights_tue routes_abc [''A'', ''B'', ''C''] = Inr []"
proof -
  have h1: "pair_options flights_ab_only ''B'' ''C'' = []"
    by (simp add: flights_ab_only_def pair_options_def)
  have h2: "pair_options flights_ab_only ''A'' ''B'' \<noteq> []"
    by (simp add: flights_ab_only_def pair_options_def)
  have h3: "\<not> legs_scheduled flights_ab_only [''B'', ''C'']"
    by (simp add: flights_ab_only_def pair_options_def)
  have h4: "timetable_ok flights_ab_only"
    by (simp add: timetable_ok_def flights_ab_only_def timedelta_def)
  have h5: "legs_in_routes routes_abc [''A'', ''B'', ''C'']"
    by (simp add: routes_abc_def routes_row_def)
  have h6: "pair_options flights_tue ''A'' ''B'' = []"
    by (simp add: flights_tue_def pair_options_def)
  from find_flights_missing_leg
         [of flights_ab_only "''B''" "''C''" routes_abc "timedelta 1 10 0" 100 "''A''" "''B''" "[''C'']"]
       find_flights_missing_leg
         [of flights_tue "''B''" "''C''" routes_abc "timedelta 1 10 0" 100 "''A''" "''B''" "[''C'']"]
       h1 h2 h3 h4 h5 h6
  show ?thesis by simp
qed

subsection \<open>The wrap to the next cycle\<close>

lemma pair_options_first:
  assumes "timetable_sorted flights" and "pair_options flights a b = f # fs"
    and "g \<in> set (f # fs)"
  shows "(week_day f, time f) \<le> (week_day g, time g)"
proof -
  from assms(1) have "sorted (map row_key (pair_options flights a b))"
    unfolding timetable_sorted_def pair_options_def by (rule sorted_filter)
  with assms(2,3) have "row_key f \<le> row_key g" by auto
  moreover from assms(2) have "f \<in> set (pair_options flights a b)" by simp
  then have "city_from f = a" "city_to f = b" by (simp_all add: pair_options_def)
  moreover from assms(2,3) have "g \<in> set (pair_options flights a b)" by simp
  then have "city_from g = a" "city_to g = b" by (simp_all add: pair_options_def)
  ultimately show ?thesis by (simp add: row_key_def less_eq_prod_def)
qed

lemma same_week_empty:
  assumes "\<forall>g \<in> set opts. \<not> at_or_after day (timedelta 0 hours minutes) g"
  shows "same_week_options opts day hours minutes = []"
  using assms by (auto simp: same_week_options_def at_or_after_def filter_empty_conv)

text \<open>
  The wrap, stated on the triple that \<^verbatim>\<open>timedelta_to_day_hour_minutes\<close> returns for the
  boarding time. The pair has a scheduled flight, and no flight of the pair lies at or
  after that triple (weekday, then time of day). On a sorted, well-formed timetable
  \<^verbatim>\<open>find_nearest_flight\<close> then selects the first row of the pair, which is the least one
  by weekday and time of day, and adds seven days to the gap; the departure is not
  before the boarding time. The hypotheses cannot be met when the triple has weekday 0,
  that is, when the boarding time falls on day 14, 21, ...
\<close>

lemma find_nearest_flight_next_cycle:
  assumes "timetable_ok flights" and "timetable_sorted flights"
    and "timedelta_to_day_hour_minutes (time_pos + timedelta 0 3 0) = (day, hours, minutes)"
    and "pair_options flights origin_city destination_city = f # fs"
    and "\<forall>g \<in> set (f # fs). \<not> at_or_after day (timedelta 0 hours minutes) g"
    and "routes_get routes origin_city destination_city = Inr duration"
  shows "\<exists>day_name departure.
      map_of week_days (week_day f) = Some day_name
    \<and> find_nearest_flight flights routes origin_city destination_city time_pos total_price
        = Inr ((origin_city, day_name, timedelta_to_formatted_string (time f)),
               departure + duration, total_price + price f)
    \<and> (\<forall>g \<in> set (f # fs). (week_day f, time f) \<le> (week_day g, time g))
    \<and> departure = time_pos + timedelta 0 3 0
         + (timedelta (week_day f) 0 0 + time f - timedelta day hours minutes + timedelta 7 0 0)
    \<and> time_pos + timedelta 0 3 0 \<le> departure
    \<and> departure - (time_pos + timedelta 0 3 0 - timedelta day hours minutes)
        = timedelta 7 0 0 + (timedelta (week_day f) 0 0 + time f)
    \<and> timedelta 8 0 0 \<le> departure - (time_pos + timedelta 0 3 0 - timedelta day hours minutes)
    \<and> departure - (time_pos + timedelta 0 3 0 - timedelta day hours minutes) < timedelta 15 0 0"
proof -
  let ?opts = "pair_options flights origin_city destination_city"
  define departure where "departure = time_pos + timedelta 0 3 0
         + (timedelta (week_day f) 0 0 + time f - timedelta day hours minutes + timedelta 7 0 0)"
  from assms(4,5) have same: "same_week_options ?opts day hours minutes = []"
    by (simp add: same_week_empty)
  from assms(4) have "f \<in> set ?opts" by simp
  then have "f \<in> set flights" by (rule pair_options_subset)
  with assms(1) have wf: "1 \<le> week_day f" "week_day f \<le> 7" "0 \<le> time f" "time f < 86400"
    by (auto dest: timetable_okD)
  then obtain day_name where dn: "map_of week_days (week_day f) = Some day_name"
    using week_days_defined by blast
  have run: "find_nearest_flight flights routes origin_city destination_city time_pos total_price
        = Inr ((origin_city, day_name, timedelta_to_formatted_string (time f)),
               departure + duration, total_price + price f)"
    unfolding find_nearest_flight_unfold [OF assms(3)] same departure_def
    using assms(4,6) dn by simp
  have least: "\<forall>g \<in> set (f # fs). (week_day f, time f) \<le> (week_day g, time g)"
    using pair_options_first [OF assms(2,4)] by blast
  have "0 \<le> timedelta (week_day f) 0 0 + time f - timedelta day hours minutes + timedelta 7 0 0"
    using wf(1,3) normalise_bounds(1,3) [OF assms(3)] by (rule gap_next_week)
  then have later: "time_pos + timedelta 0 3 0 \<le> departure" by (simp add: departure_def)
  have offset: "departure - (time_pos + timedelta 0 3 0 - timedelta day hours minutes)
        = timedelta 7 0 0 + (timedelta (week_day f) 0 0 + time f)"
    by (simp add: departure_def)
  have range: "timedelta 8 0 0 \<le> timedelta 7 0 0 + (timedelta (week_day f) 0 0 + time f)"
     "timedelta 7 0 0 + (timedelta (week_day f) 0 0 + time f) < timedelta 15 0 0"
    using wf by (simp_all add: timedelta_def)
  from dn run least later offset range show ?thesis
    unfolding offset [symmetric] using departure_def by blast
qed

lemma find_nearest_flight_next_cycle_example:
  "timetable_ok flights_tue \<and> timetable_sorted flights_tue
 \<and> timedelta_to_day_hour_minutes (timedelta 2 10 0 + timedelta 0 3 0) = (2, 13, 0)
 \<and> pair_options flights_tue ''B'' ''C''
     = [\<lparr>city_from = ''B'', city_to = ''C'', week_day = 2, time = timedelta 0 9 0, price = 150\<rparr>]
 \<and> \<not> at_or_after 2 (timedelta 0 13 0)
       \<lparr>city_from = ''B'', city_to = ''C'', week_day = 2, time = timedelta 0 9 0, price = 150\<rparr>
 \<and> routes_get routes_abc ''B'' ''C'' = Inr (timedelta 0 3 0)
 \<and> find_nearest_flight flights_tue routes_abc ''B'' ''C'' (timedelta 2 10 0) 0
     = Inr ((''B'', ''Tuesday'', (9, 0)), timedelta 9 9 0 + timedelta 0 3 0, 150)
 \<and> timedelta 2 10 0 + timedelta 0 3 0 \<le> timedelta 9 9 0"
proof -
  let ?f = "\<lparr>city_from = ''B'', city_to = ''C'', week_day = 2, time = timedelta 0 9 0, price = 150\<rparr>"
  have h1: "timetable_ok flights_tue"
    by (simp add: timetable_ok_def flights_tue_def timedelta_def)
  have h2: "timetable_sorted flights_tue"
    by (simp add: timetable_sorted_def flights_tue_def)
  have h3: "timedelta_to_day_hour_minutes (timedelta 2 10 0 + timedelta 0 3 0) = (2, 13, 0)"
    by (simp add: time_defs)
  have h4: "pair_options flights_tue ''B'' ''C'' = ?f # []"
    by (simp add: flights_tue_def pair_options_def)
  have h5: "\<forall>g \<in> set (?f # []). \<not> at_or_after 2 (timedelta 0 13 0) g"
    by (simp add: at_or_after_def timedelta_def)
  have h6: "routes_get routes_abc ''B'' ''C'' = Inr (timedelta 0 3 0)"
    by (simp add: routes_abc_def routes_get_def routes_row_def)
  from find_nearest_flight_next_cycle [OF h1 h2 h3 h4 h5 h6, of 0]
  obtain day_name departure
    where "find_nearest_flight flights_tue routes_abc ''B'' ''C'' (timedelta 2 10 0) 0
             = Inr ((''B'', day_name, timedelta_to_formatted_string (time ?f)),
                    departure + timedelta 0 3 0, 0 + price ?f)"
      and "map_of week_days (week_day ?f) = Some day_name"
      and "departure = timedelta 2 10 0 + timedelta 0 3 0
             + (timedelta (week_day ?f) 0 0 + time ?f - timedelta 2 13 0 + timedelta 7 0 0)"
      and "timedelta 2 10 0 + timedelta 0 3 0 \<le> departure"
    by blast
  then have "find_nearest_flight flights_tue routes_abc ''B'' ''C'' (timedelta 2 10 0) 0
     = Inr ((''B'', ''Tuesday'', (9, 0)), timedelta 9 9 0 + timedelta 0 3 0, 150)
     \<and> timedelta 2 10 0 + timedelta 0 3 0 \<le> timedelta 9 9 0"
    by (simp add: week_days_def time_defs)
  with h1 h2 h3 h4 h5 h6 show ?thesis by simp
qed

text \<open>
  C2. The only flight from B to C leaves on Monday 00:30. A traveller who lands on day
  13 at 22:00 may board from day 14 (a Sunday), 01:00: no flight of the pair is left in
  that week, so the next cycle's first flight, on day 15 at 00:30, is the one to take.
  The boarding time is normalised to weekday 0, the gap from (0, 01:00) to Monday 00:30
  is 23:30, seven days are added to it, and the departure is on day 22 at 00:30, one
  whole cycle later than the next cycle.
\<close>

theorem find_nearest_flight_sunday_overshoot:
  "\<not> at_or_after 7 (timedelta 0 1 0)
       \<lparr>city_from = ''B'', city_to = ''C'', week_day = 1, time = timedelta 0 0 30, price = 120\<rparr>
 \<and> timedelta_to_day_hour_minutes (timedelta 13 22 0 + timedelta 0 3 0) = (0, 1, 0)
 \<and> find_nearest_flight flights_mon_early routes_abc ''B'' ''C'' (timedelta 13 22 0) 0
     = Inr ((''B'', ''Monday'', (0, 30)), timedelta 22 0 30 + timedelta 0 3 0, 120)"
  by (simp add: flights_mon_early_def routes_abc_def resolver_defs time_defs at_or_after_def)

subsection \<open>The search\<close>

lemma graph_closed_edge:
  assumes "graph_closed routes" and "edge routes a b"
  shows "b \<in> set (map fst routes)"
proof (cases "map_of routes a")
  case None
  with assms(2) show ?thesis by (simp add: edge_def routes_row_def)
next
  case (Some nb)
  then have "(a, nb) \<in> set routes" by (rule map_of_SomeD)
  with assms(1) have "\<forall>(b, d) \<in> set nb. b \<in> set (map fst routes)"
    by (auto simp: graph_closed_def list_all_iff)
  moreover from assms(2) Some have "b \<in> fst ` set nb" by (simp add: edge_def routes_row_def)
  ultimately show ?thesis by auto
qed

lemma edge_routes_get:
  assumes "edge routes a b"
  shows "\<exists>d. routes_get routes a b = Inr d"
proof -
  from assms have "b \<in> fst ` set (routes_row routes a)" by (simp add: edge_def)
  then have "map_of (routes_row routes a) b \<noteq> None" by (simp add: map_of_eq_None_iff)
  then show ?thesis by (auto simp: routes_get_def)
qed

lemma is_walk_snoc:
  "w \<noteq> [] \<Longrightarrow> is_walk routes (w @ [y]) = (is_walk routes w \<and> edge routes (last w) y)"
proof (induction w rule: is_walk.induct)
  case (1 routes)
  then show ?case by simp
next
  case (2 routes a)
  then show ?case by simp
next
  case (3 routes a b rest)
  then show ?case by auto
qed

lemma disc_hops: "disc s x \<Longrightarrow> n_routes s x = Some (Some (hops s x))"
  by (auto simp: disc_def hops_def)

lemma disc_discover: "disc (discover cur n s) x = (x = n \<or> disc s x)"
  by (simp add: disc_def discover_def)

lemma hops_discover:
  "hops (discover cur n s) x = (if x = n then hops s cur + 1 else hops s x)"
  by (simp add: hops_def discover_def)

lemma queue_discover: "queue (discover cur n s) = queue s @ [n]"
  by (simp add: discover_def)

lemma parents_discover: "parents (discover cur n s) x = (if x = n then Some (Some cur) else parents s x)"
  by (simp add: discover_def)

lemma n_routes_discover:
  "n_routes (discover cur n s) x = (if x = n then Some (Some (hops s cur + 1)) else n_routes s x)"
  by (simp add: discover_def)

lemma path_exists_discover: "path_exists (discover cur n s) = path_exists s"
  by (simp add: discover_def)

lemmas discover_simps = disc_discover hops_discover queue_discover parents_discover
  n_routes_discover path_exists_discover

lemma undiscovered_not_disc: "n_routes s n = Some None \<Longrightarrow> \<not> disc s n"
  by (simp add: disc_def)

lemma discover_tree:
  assumes t: "tree_inv routes start s" and c: "disc s cur"
    and n: "n_routes s n = Some None" and e: "edge routes cur n"
  shows "tree_inv routes start (discover cur n s)"
proof -
  from n have nd: "\<not> disc s n" by (rule undiscovered_not_disc)
  from t n have ns: "n \<noteq> start" by (auto simp: tree_inv_def)
  from c nd have nc: "n \<noteq> cur" by auto
  from t have k: "(n_routes s x \<noteq> None) = (x \<in> set (map fst routes))" for x
    by (simp add: tree_inv_def)
  from k [of n] n have "n \<in> set (map fst routes)" by simp
  with k have keys: "\<forall>x. (n_routes (discover cur n s) x \<noteq> None) = (x \<in> set (map fst routes))"
    by (simp add: discover_simps)
  from t ns have st: "n_routes (discover cur n s) start = Some (Some 0)"
      "parents (discover cur n s) start = Some None"
    by (simp_all add: tree_inv_def discover_simps)
  from t c have nn: "\<forall>x. disc (discover cur n s) x \<longrightarrow> 0 \<le> hops (discover cur n s) x"
    by (auto simp: tree_inv_def discover_simps)
  have par: "\<exists>p. parents (discover cur n s) x = Some (Some p) \<and> disc (discover cur n s) p
               \<and> edge routes p x \<and> hops (discover cur n s) x = hops (discover cur n s) p + 1"
    if "disc (discover cur n s) x \<and> x \<noteq> start" for x
  proof (cases "x = n")
    case True
    with c e nc show ?thesis by (auto simp: discover_simps)
  next
    case False
    with that have "disc s x" "x \<noteq> start" by (simp_all add: discover_simps)
    with t obtain p where p: "parents s x = Some (Some p)" "disc s p" "edge routes p x"
        "hops s x = hops s p + 1"
      unfolding tree_inv_def by blast
    from p(2) nd have "p \<noteq> n" by auto
    with p False show ?thesis by (simp add: discover_simps)
  qed
  from keys st nn par show ?thesis unfolding tree_inv_def by blast
qed

lemma discover_edge_inv:
  assumes l: "level_inv routes cur s" and n: "n_routes s n = Some None"
  shows "edge_inv routes (discover cur n s)"
  unfolding edge_inv_def
proof (intro allI impI)
  fix x y
  assume a: "disc (discover cur n s) x \<and> disc (discover cur n s) y \<and> edge routes x y"
  from n have nd: "\<not> disc s n" by (rule undiscovered_not_disc)
  from l have E: "edge_inv routes s" by (simp add: level_inv_def)
  from l have c: "disc s cur" by (simp add: level_inv_def)
  have lower: "hops s cur \<le> hops s z" if "disc s z" "edge routes z n" for z
  proof -
    have "z \<in> set (queue s) \<or> z = cur"
    proof (rule ccontr)
      assume "\<not> (z \<in> set (queue s) \<or> z = cur)"
      with l that have "disc s n" unfolding level_inv_def by blast
      with nd show False ..
    qed
    with l show ?thesis unfolding level_inv_def by auto
  qed
  have upper: "hops s z \<le> hops s cur + 1" if "disc s z" for z
  proof (cases "z \<in> set (queue s)")
    case True
    with l show ?thesis unfolding level_inv_def by blast
  next
    case False
    show ?thesis
    proof (cases "z = cur")
      case True
      then show ?thesis by simp
    next
      case False
      with l that \<open>z \<notin> set (queue s)\<close> have "hops s z \<le> hops s cur"
        unfolding level_inv_def by blast
      then show ?thesis by simp
    qed
  qed
  show "hops (discover cur n s) y \<le> hops (discover cur n s) x + 1"
  proof (cases "x = n")
    case xn: True
    show ?thesis
    proof (cases "y = n")
      case True
      with xn show ?thesis by (simp add: discover_simps)
    next
      case False
      with a have "disc s y" by (simp add: discover_simps)
      from upper [OF this] xn False show ?thesis by (simp add: discover_simps)
    qed
  next
    case xn: False
    with a have dx: "disc s x" by (simp add: discover_simps)
    show ?thesis
    proof (cases "y = n")
      case True
      with a have "edge routes x n" by simp
      from lower [OF dx this] xn True show ?thesis by (simp add: discover_simps)
    next
      case False
      with a have "disc s y" by (simp add: discover_simps)
      with E dx a have "hops s y \<le> hops s x + 1" unfolding edge_inv_def by blast
      with xn False show ?thesis by (simp add: discover_simps)
    qed
  qed
qed

lemma discover_level:
  assumes l: "level_inv routes cur s" and n: "n_routes s n = Some None"
  shows "level_inv routes cur (discover cur n s)"
proof -
  let ?s = "discover cur n s"
  from n have nd: "\<not> disc s n" by (rule undiscovered_not_disc)
  from l have c: "disc s cur" by (simp add: level_inv_def)
  with nd have nc: "n \<noteq> cur" by auto
  from l nd have nq: "n \<notin> set (queue s)" unfolding level_inv_def by blast
  have h: "hops ?s x = hops s x" if "x \<noteq> n" for x using that by (simp add: discover_simps)
  have hq: "map (hops ?s) (queue s) = map (hops s) (queue s)"
    using nq by (auto simp: discover_simps)
  have 1: "disc ?s cur \<and> cur \<notin> set (queue ?s)"
    using l nc by (simp add: level_inv_def discover_simps)
  have 2: "distinct (queue ?s)"
    using l nq by (simp add: level_inv_def discover_simps)
  have 3: "\<forall>x \<in> set (queue ?s). disc ?s x \<and> hops ?s cur \<le> hops ?s x \<and> hops ?s x \<le> hops ?s cur + 1"
    using l nc unfolding level_inv_def by (auto simp: discover_simps)
  have "sorted (map (hops s) (queue s) @ [hops s cur + 1])"
    using l unfolding level_inv_def by (auto simp: sorted_append)
  then have 4: "sorted (map (hops ?s) (queue ?s))"
    unfolding queue_discover map_append hq by (simp add: discover_simps)
  have 5: "hops ?s x \<le> hops ?s cur \<and> (\<forall>y. edge routes x y \<longrightarrow> disc ?s y)"
    if "disc ?s x \<and> x \<notin> set (queue ?s) \<and> x \<noteq> cur" for x
  proof -
    from that have "x \<noteq> n" "disc s x" "x \<notin> set (queue s)" "x \<noteq> cur"
      by (auto simp: discover_simps)
    with l have "hops s x \<le> hops s cur \<and> (\<forall>y. edge routes x y \<longrightarrow> disc s y)"
      unfolding level_inv_def by blast
    with \<open>x \<noteq> n\<close> nc show ?thesis by (simp add: discover_simps)
  qed
  from discover_edge_inv [OF l n] 1 2 3 4 5 show ?thesis unfolding level_inv_def by blast
qed

lemma discover_pending:
  assumes "n \<in> set (map fst routes)" and "n_routes s n = Some None"
  shows "pending routes (discover cur n s) = pending routes s"
proof -
  let ?U = "{x \<in> set (map fst routes). n_routes s x = Some None}"
  have "{x \<in> set (map fst routes). n_routes (discover cur n s) x = Some None} = ?U - {n}"
    by (auto simp: discover_simps)
  moreover have "finite ?U" by simp
  moreover from assms have "n \<in> ?U" by simp
  ultimately have "card {x \<in> set (map fst routes). n_routes (discover cur n s) x = Some None} + 1 = card ?U"
    using card_Suc_Diff1 [of ?U n] by simp
  then show ?thesis by (simp add: pending_def discover_simps)
qed

lemma disc_flag [simp]: "disc (s\<lparr>path_exists := b\<rparr>) = disc s"
  by (simp add: disc_def fun_eq_iff)

lemma hops_flag [simp]: "hops (s\<lparr>path_exists := b\<rparr>) = hops s"
  by (simp add: hops_def fun_eq_iff)

lemma tree_inv_flag [simp]: "tree_inv routes start (s\<lparr>path_exists := b\<rparr>) = tree_inv routes start s"
  by (simp add: tree_inv_def)

lemma pending_flag [simp]: "pending routes (s\<lparr>path_exists := b\<rparr>) = pending routes s"
  by (simp add: pending_def)

lemma found_inv_flag [simp]:
  "found_inv routes start end_v (s\<lparr>path_exists := b\<rparr>) = found_inv routes start end_v s"
  by (simp add: found_inv_def)

lemma disc_queue [simp]: "disc (s\<lparr>queue := q\<rparr>) = disc s"
  by (simp add: disc_def fun_eq_iff)

lemma hops_queue [simp]: "hops (s\<lparr>queue := q\<rparr>) = hops s"
  by (simp add: hops_def fun_eq_iff)

lemma tree_inv_queue [simp]: "tree_inv routes start (s\<lparr>queue := q\<rparr>) = tree_inv routes start s"
  by (simp add: tree_inv_def)

lemma edge_inv_queue [simp]: "edge_inv routes (s\<lparr>queue := q\<rparr>) = edge_inv routes s"
  by (simp add: edge_inv_def)

text \<open>
  While the neighbours of \<open>cur\<close> are visited, a walk from a discovered city to one that
  is not discovered is long: it has to leave the discovered cities through the queue.
\<close>

lemma walk_to_undiscovered:
  assumes l: "level_inv routes cur s"
  shows "is_walk routes w \<Longrightarrow> disc s (hd w) \<Longrightarrow> \<not> disc s (last w)
           \<Longrightarrow> hops s cur + 2 \<le> hops s (hd w) + int (length w)"
proof (induction w rule: induct_list012)
  case 1
  then show ?case by simp
next
  case (2 a)
  then show ?case by simp
next
  case (3 a b rest)
  from "3.prems" have e: "edge routes a b" and w: "is_walk routes (b # rest)"
    and da: "disc s a" and nl: "\<not> disc s (last (b # rest))"
    by simp_all
  show ?case
  proof (cases "disc s b")
    case True
    with "3.IH"(2) w nl have "hops s cur + 2 \<le> hops s b + int (length (b # rest))" by simp
    moreover from l da True e have "hops s b \<le> hops s a + 1"
      unfolding level_inv_def edge_inv_def by blast
    ultimately show ?thesis by simp
  next
    case False
    have "a \<in> set (queue s) \<or> a = cur"
    proof (rule ccontr)
      assume "\<not> (a \<in> set (queue s) \<or> a = cur)"
      with l da e have "disc s b" unfolding level_inv_def by blast
      with False show False ..
    qed
    with l have "hops s cur \<le> hops s a" unfolding level_inv_def by auto
    then show ?thesis by simp
  qed
qed

lemma discover_found:
  assumes t: "tree_inv routes start s" and l: "level_inv routes cur s"
    and n: "n_routes s n = Some None"
  shows "found_inv routes start n (discover cur n s)"
proof -
  from n have nd: "\<not> disc s n" by (rule undiscovered_not_disc)
  from t have ds: "disc s start" and hs: "hops s start = 0"
    by (simp_all add: tree_inv_def disc_def hops_def)
  from ds nd have "n \<noteq> start" by auto
  moreover have "disc (discover cur n s) n" by (simp add: discover_simps)
  moreover have "hops (discover cur n s) n + 1 \<le> int (length w)"
    if "walk_from_to routes start n w" for w
  proof -
    from that have "is_walk routes w" "hd w = start" "last w = n"
      by (simp_all add: walk_from_to_def)
    with walk_to_undiscovered [OF l, of w] ds nd hs show ?thesis
      by (simp add: discover_simps)
  qed
  ultimately show ?thesis unfolding found_inv_def by blast
qed

lemma visit_known:
  "n_routes s n = Some (Some d) \<Longrightarrow> visit end_v cur (n # ns) s = visit end_v cur ns s"
  by simp

lemma visit_new:
  assumes "n_routes s n = Some None" and "disc s cur"
  shows "visit end_v cur (n # ns) s =
     (if n = end_v then Inr ((discover cur n s)\<lparr>path_exists := True\<rparr>)
      else visit end_v cur ns (discover cur n s))"
proof -
  from assms(2) have "n_routes s cur = Some (Some (hops s cur))" by (rule disc_hops)
  with assms(1) show ?thesis by (simp add: discover_def Let_def)
qed

text \<open>
  The \<^verbatim>\<open>for\<close> loop over neighbours of \<open>cur\<close>: it raises nothing, keeps the invariants
  and the measure, and either sets the flag on recording the end or leaves every visited
  neighbour discovered.
\<close>

lemma visit_correct:
  assumes closed: "graph_closed routes"
  shows "tree_inv routes start s \<Longrightarrow> level_inv routes cur s
     \<Longrightarrow> \<forall>n \<in> set ns. edge routes cur n
     \<Longrightarrow> \<not> path_exists s \<Longrightarrow> (end_v \<noteq> start \<longrightarrow> \<not> disc s end_v)
     \<Longrightarrow> \<exists>s'. visit end_v cur ns s = Inr s'
            \<and> tree_inv routes start s' \<and> pending routes s' = pending routes s
            \<and> (\<forall>x. disc s x \<longrightarrow> disc s' x)
            \<and> (if path_exists s' then found_inv routes start end_v s'
                else level_inv routes cur s' \<and> (\<forall>n \<in> set ns. disc s' n)
                     \<and> (end_v \<noteq> start \<longrightarrow> \<not> disc s' end_v))"
proof (induction ns arbitrary: s)
  case Nil
  then show ?case by simp
next
  case (Cons n ns)
  from Cons.prems have t: "tree_inv routes start s" and l: "level_inv routes cur s"
    and e: "edge routes cur n" and es: "\<forall>n \<in> set ns. edge routes cur n"
    and nf: "\<not> path_exists s" and ne: "end_v \<noteq> start \<longrightarrow> \<not> disc s end_v"
    by simp_all
  from l have c: "disc s cur" by (simp add: level_inv_def)
  from graph_closed_edge [OF closed e] have key: "n \<in> set (map fst routes)" .
  with t have "n_routes s n \<noteq> None" by (simp add: tree_inv_def)
  then consider d where "n_routes s n = Some (Some d)" | "n_routes s n = Some None"
    by (cases "n_routes s n") auto
  then show ?case
  proof cases
    case 1
    then have dn: "disc s n" by (simp add: disc_def)
    from Cons.IH [OF t l es nf ne] obtain s'
      where r: "visit end_v cur ns s = Inr s'" and t': "tree_inv routes start s'"
        and p': "pending routes s' = pending routes s" and mono: "\<forall>x. disc s x \<longrightarrow> disc s' x"
        and post: "if path_exists s' then found_inv routes start end_v s'
                else level_inv routes cur s' \<and> (\<forall>n \<in> set ns. disc s' n)
                     \<and> (end_v \<noteq> start \<longrightarrow> \<not> disc s' end_v)"
      by blast
    from dn mono have "disc s' n" by blast
    with post have "if path_exists s' then found_inv routes start end_v s'
                else level_inv routes cur s' \<and> (\<forall>m \<in> set (n # ns). disc s' m)
                     \<and> (end_v \<noteq> start \<longrightarrow> \<not> disc s' end_v)"
      by (simp split: if_splits)
    moreover from r 1 have "visit end_v cur (n # ns) s = Inr s'" by (simp only: visit_known)
    ultimately show ?thesis using t' p' mono by blast
  next
    case 2
    let ?s = "discover cur n s"
    have t2: "tree_inv routes start ?s" using t c 2 e by (rule discover_tree)
    have l2: "level_inv routes cur ?s" using l 2 by (rule discover_level)
    have p2: "pending routes ?s = pending routes s" using key 2 by (rule discover_pending)
    have m2: "\<forall>x. disc s x \<longrightarrow> disc ?s x" by (simp add: discover_simps)
    show ?thesis
    proof (cases "n = end_v")
      case True
      from discover_found [OF t l 2] True
      have "found_inv routes start end_v (?s\<lparr>path_exists := True\<rparr>)" by simp
      moreover have "visit end_v cur (n # ns) s = Inr (?s\<lparr>path_exists := True\<rparr>)"
        unfolding visit_new [OF 2 c] using True by simp
      moreover have "path_exists (?s\<lparr>path_exists := True\<rparr>)" by simp
      ultimately show ?thesis using t2 p2 m2 by (intro exI [of _ "?s\<lparr>path_exists := True\<rparr>"]) simp
    next
      case False
      from nf have nf2: "\<not> path_exists ?s" by (simp add: discover_simps)
      from ne False have ne2: "end_v \<noteq> start \<longrightarrow> \<not> disc ?s end_v"
        by (auto simp: discover_simps)
      from Cons.IH [OF t2 l2 es nf2 ne2] obtain s'
        where r: "visit end_v cur ns ?s = Inr s'" and t': "tree_inv routes start s'"
          and p': "pending routes s' = pending routes ?s" and mono: "\<forall>x. disc ?s x \<longrightarrow> disc s' x"
          and post: "if path_exists s' then found_inv routes start end_v s'
                else level_inv routes cur s' \<and> (\<forall>n \<in> set ns. disc s' n)
                     \<and> (end_v \<noteq> start \<longrightarrow> \<not> disc s' end_v)"
        by blast
      have "disc ?s n" by (simp add: discover_simps)
      with mono have "disc s' n" by blast
      with post have "if path_exists s' then found_inv routes start end_v s'
                else level_inv routes cur s' \<and> (\<forall>m \<in> set (n # ns). disc s' m)
                     \<and> (end_v \<noteq> start \<longrightarrow> \<not> disc s' end_v)"
        by (simp split: if_splits)
      moreover have "visit end_v cur (n # ns) s = Inr s'"
        unfolding visit_new [OF 2 c] using r False by simp
      moreover from mono m2 have "\<forall>x. disc s x \<longrightarrow> disc s' x" by blast
      ultimately show ?thesis using t' p' p2 by (intro exI [of _ s']) simp
    qed
  qed
qed

lemma head_to_level:
  assumes h: "head_inv routes s" and q: "queue s = cur # rest"
  shows "level_inv routes cur (s\<lparr>queue := rest\<rparr>)"
proof -
  from h q have d: "distinct (cur # rest)" and dq: "\<forall>x \<in> set (cur # rest). disc s x"
    and so: "sorted (map (hops s) (cur # rest))"
    and df: "\<forall>x \<in> set (cur # rest). \<forall>y \<in> set (cur # rest). hops s y \<le> hops s x + 1"
    and pr: "\<forall>x. disc s x \<and> x \<notin> set (cur # rest) \<longrightarrow>
          (\<forall>y \<in> set (cur # rest). hops s x \<le> hops s y) \<and> (\<forall>y. edge routes x y \<longrightarrow> disc s y)"
    and E: "edge_inv routes s"
    unfolding head_inv_def by simp_all
  from dq d have 1: "disc s cur \<and> cur \<notin> set rest" by simp
  from d have 2: "distinct rest" by simp
  from so have lo: "\<forall>x \<in> set rest. hops s cur \<le> hops s x" by simp
  from df have "\<forall>y \<in> set (cur # rest). hops s y \<le> hops s cur + 1" by simp
  with dq lo have 3: "\<forall>x \<in> set rest. disc s x \<and> hops s cur \<le> hops s x \<and> hops s x \<le> hops s cur + 1"
    by simp
  from so have 4: "sorted (map (hops s) rest)" by simp
  from pr have 5: "\<forall>x. disc s x \<and> x \<notin> set rest \<and> x \<noteq> cur \<longrightarrow>
          hops s x \<le> hops s cur \<and> (\<forall>y. edge routes x y \<longrightarrow> disc s y)"
    by auto
  from 1 2 3 4 5 E show ?thesis unfolding level_inv_def by simp
qed

lemma level_to_head:
  assumes l: "level_inv routes cur s" and nb: "\<forall>n. edge routes cur n \<longrightarrow> disc s n"
  shows "head_inv routes s"
proof -
  from l have 1: "distinct (queue s)" and 2: "\<forall>x \<in> set (queue s). disc s x"
    and 3: "sorted (map (hops s) (queue s))" and E: "edge_inv routes s"
    and b: "\<forall>x \<in> set (queue s). hops s cur \<le> hops s x \<and> hops s x \<le> hops s cur + 1"
    and pr: "\<forall>x. disc s x \<and> x \<notin> set (queue s) \<and> x \<noteq> cur \<longrightarrow>
          hops s x \<le> hops s cur \<and> (\<forall>y. edge routes x y \<longrightarrow> disc s y)"
    unfolding level_inv_def by simp_all
  have 4: "\<forall>x \<in> set (queue s). \<forall>y \<in> set (queue s). hops s y \<le> hops s x + 1"
  proof (intro ballI)
    fix x y assume "x \<in> set (queue s)" "y \<in> set (queue s)"
    with b have "hops s cur \<le> hops s x" "hops s y \<le> hops s cur + 1" by simp_all
    then show "hops s y \<le> hops s x + 1" by simp
  qed
  have 5: "(\<forall>y \<in> set (queue s). hops s x \<le> hops s y) \<and> (\<forall>y. edge routes x y \<longrightarrow> disc s y)"
    if x: "disc s x \<and> x \<notin> set (queue s)" for x
  proof (cases "x = cur")
    case True
    with b nb show ?thesis by simp
  next
    case False
    with pr x have le: "hops s x \<le> hops s cur" and cl: "\<forall>y. edge routes x y \<longrightarrow> disc s y"
      by blast+
    have "hops s x \<le> hops s y" if "y \<in> set (queue s)" for y
    proof -
      from b that have "hops s cur \<le> hops s y" by simp
      with le show ?thesis by simp
    qed
    with cl show ?thesis by simp
  qed
  from 1 2 3 4 5 E show ?thesis unfolding head_inv_def by simp
qed

lemma pending_pop:
  "queue s = cur # rest \<Longrightarrow> pending routes (s\<lparr>queue := rest\<rparr>) < pending routes s"
  by (simp add: pending_def)

text \<open>
  The \<^verbatim>\<open>while\<close> loop returns from every state that satisfies the invariants: with
  the flag set and the end at its least hop count, or with the flag unset, an empty
  queue and the end not discovered.
\<close>

lemma bfs_loop_correct:
  assumes closed: "graph_closed routes"
  shows "tree_inv routes start s
     \<Longrightarrow> (if path_exists s then found_inv routes start end_v s
          else head_inv routes s \<and> (end_v \<noteq> start \<longrightarrow> \<not> disc s end_v))
     \<Longrightarrow> \<exists>r. bfs_loop routes end_v s = Some (Inr r) \<and> tree_inv routes start r
            \<and> (if path_exists r then found_inv routes start end_v r
                else queue r = [] \<and> head_inv routes r \<and> (end_v \<noteq> start \<longrightarrow> \<not> disc r end_v))"
proof (induction "pending routes s" arbitrary: s rule: less_induct)
  case less
  note t = less.prems(1) and inv = less.prems(2)
  show ?case
  proof (cases "path_exists s")
    case True
    then have "bfs_loop routes end_v s = Some (Inr s)" by (subst bfs_loop.simps) simp
    with True t inv show ?thesis by simp
  next
    case nf: False
    with inv have h: "head_inv routes s" and ne: "end_v \<noteq> start \<longrightarrow> \<not> disc s end_v"
      by simp_all
    show ?thesis
    proof (cases "queue s")
      case Nil
      with nf have "bfs_loop routes end_v s = Some (Inr s)" by (subst bfs_loop.simps) simp
      with nf Nil t h ne show ?thesis by simp
    next
      case (Cons cur rest)
      let ?s = "s\<lparr>queue := rest\<rparr>"
      let ?ns = "map fst (routes_row routes cur)"
      have t1: "tree_inv routes start ?s" using t by simp
      have l1: "level_inv routes cur ?s" using h Cons by (rule head_to_level)
      have e1: "\<forall>n \<in> set ?ns. edge routes cur n" by (simp add: edge_def)
      have nf1: "\<not> path_exists ?s" using nf by simp
      have ne1: "end_v \<noteq> start \<longrightarrow> \<not> disc ?s end_v" using ne by simp
      from visit_correct [OF closed t1 l1 e1 nf1 ne1] obtain s'
        where v: "visit end_v cur ?ns ?s = Inr s'" and t': "tree_inv routes start s'"
          and p': "pending routes s' = pending routes ?s"
          and post: "if path_exists s' then found_inv routes start end_v s'
                else level_inv routes cur s' \<and> (\<forall>n \<in> set ?ns. disc s' n)
                     \<and> (end_v \<noteq> start \<longrightarrow> \<not> disc s' end_v)"
        by blast
      from p' pending_pop [OF Cons] have less: "pending routes s' < pending routes s" by simp
      have inv': "if path_exists s' then found_inv routes start end_v s'
          else head_inv routes s' \<and> (end_v \<noteq> start \<longrightarrow> \<not> disc s' end_v)"
      proof (cases "path_exists s'")
        case True
        with post show ?thesis by simp
      next
        case False
        with post have l': "level_inv routes cur s'" and nb: "\<forall>n \<in> set ?ns. disc s' n"
          and ne': "end_v \<noteq> start \<longrightarrow> \<not> disc s' end_v"
          by simp_all
        from nb have "\<forall>n. edge routes cur n \<longrightarrow> disc s' n" by (auto simp: edge_def)
        with l' have "head_inv routes s'" by (rule level_to_head)
        with False ne' show ?thesis by simp
      qed
      from less.hyps [OF less t' inv'] obtain r
        where r: "bfs_loop routes end_v s' = Some (Inr r)" and tr: "tree_inv routes start r"
          and pr: "if path_exists r then found_inv routes start end_v r
                else queue r = [] \<and> head_inv routes r \<and> (end_v \<noteq> start \<longrightarrow> \<not> disc r end_v)"
        by blast
      have "bfs_loop routes end_v s = bfs_loop routes end_v s'"
        by (subst bfs_loop.simps) (simp add: nf Cons v)
      with r tr pr show ?thesis by simp
    qed
  qed
qed

lemma map_of_const_keys:
  "map_of (map ((\<lambda>c. (c, v)) \<circ> f) xs) x = (if x \<in> f ` set xs then Some v else None)"
  by (induction xs) auto

lemma initial_state_disc:
  "disc (initial_state routes start) x = (x = start)"
  by (simp add: disc_def initial_state_def map_of_const_keys)

lemma initial_state_hops: "hops (initial_state routes start) start = 0"
  by (simp add: hops_def initial_state_def)

lemma initial_tree_inv:
  assumes "start \<in> set (map fst routes)"
  shows "tree_inv routes start (initial_state routes start)"
  unfolding tree_inv_def initial_state_disc
  using assms by (simp add: initial_state_hops) (simp add: initial_state_def map_of_const_keys)

lemma initial_head_inv: "head_inv routes (initial_state routes start)"
  unfolding head_inv_def edge_inv_def initial_state_disc
  by (simp add: initial_state_def)

lemma walk_closed:
  assumes "\<forall>x y. disc s x \<and> edge routes x y \<longrightarrow> disc s y"
  shows "is_walk routes w \<Longrightarrow> disc s (hd w) \<Longrightarrow> disc s (last w)"
proof (induction w rule: induct_list012)
  case 1
  then show ?case by simp
next
  case (2 a)
  then show ?case by simp
next
  case (3 a b rest)
  from "3.prems" assms have "disc s b" by auto
  with "3.IH"(2) "3.prems" show ?case by simp
qed

lemma airborne_time_snoc:
  "w \<noteq> [] \<Longrightarrow> airborne_time routes (w @ [y])
     = airborne_time routes w + (case routes_get routes (last w) y of Inl e \<Rightarrow> 0 | Inr d \<Rightarrow> d)"
proof (induction w rule: induct_list012)
  case 1
  then show ?case by simp
next
  case (2 a)
  then show ?case by simp
next
  case (3 a b rest)
  then show ?case by simp
qed

text \<open>
  The walk back along the parent pointers returns: from a discovered city it appends
  the ancestors of the city up to the start, which form, reversed, a walk from the start
  of as many hops as the count of the city, and it adds up the airborne time of that
  walk.
\<close>

lemma path_loop_correct:
  assumes t: "tree_inv routes start s"
  shows "disc s x \<Longrightarrow> parents s x = Some par
     \<Longrightarrow> \<exists>w. path_loop routes (parents s) acc par x tot
                = Some (Inr (acc @ rev (butlast w), tot + airborne_time routes w))
            \<and> is_walk routes w \<and> hd w = start \<and> last w = x
            \<and> int (length w) = hops s x + 1"
proof (induction "nat (hops s x)" arbitrary: x par acc tot rule: less_induct)
  case less
  note dx = less.prems(1) and px = less.prems(2)
  show ?case
  proof (cases "x = start")
    case True
    with t px have "par = None" by (simp add: tree_inv_def)
    then have "path_loop routes (parents s) acc par x tot = Some (Inr (acc, tot))"
      by (subst path_loop.simps) simp
    moreover from t True have "hops s x = 0" by (simp add: tree_inv_def hops_def)
    ultimately show ?thesis using True by (intro exI [of _ "[start]"]) simp
  next
    case False
    with t dx obtain p where p: "parents s x = Some (Some p)" and dp: "disc s p"
      and e: "edge routes p x" and h: "hops s x = hops s p + 1"
      unfolding tree_inv_def by blast
    from p px have par: "par = Some p" by simp
    from edge_routes_get [OF e] obtain d where d: "routes_get routes p x = Inr d" by blast
    from t dp have nn: "0 \<le> hops s p" by (simp add: tree_inv_def)
    have "\<exists>pp. parents s p = Some pp"
    proof (cases "p = start")
      case True
      with t show ?thesis by (simp add: tree_inv_def)
    next
      case False
      with t dp show ?thesis unfolding tree_inv_def by blast
    qed
    then obtain pp where pp: "parents s p = Some pp" by blast
    from h nn have "nat (hops s p) < nat (hops s x)" by simp
    from less.hyps [OF this dp pp, of "acc @ [p]" "tot + d"] obtain w
      where r: "path_loop routes (parents s) (acc @ [p]) pp p (tot + d)
                = Some (Inr ((acc @ [p]) @ rev (butlast w), tot + d + airborne_time routes w))"
        and w: "is_walk routes w" "hd w = start" "last w = p"
        and len: "int (length w) = hops s p + 1"
      by blast
    from w(1) have wne: "w \<noteq> []" by auto
    with w(3) have rw: "rev w = p # rev (butlast w)"
      by (metis append_butlast_last_id rev_append append_Cons append_Nil rev_singleton_conv)
    have step: "path_loop routes (parents s) acc par x tot
                  = path_loop routes (parents s) (acc @ [p]) pp p (tot + d)"
      by (subst path_loop.simps) (simp add: par d pp)
    have paths: "(acc @ [p]) @ rev (butlast w) = acc @ rev (butlast (w @ [x]))"
      unfolding butlast_snoc rw by simp
    have times: "tot + d + airborne_time routes w = tot + airborne_time routes (w @ [x])"
      using wne w(3) d by (simp add: airborne_time_snoc)
    have "path_loop routes (parents s) acc par x tot
            = Some (Inr (acc @ rev (butlast (w @ [x])), tot + airborne_time routes (w @ [x])))"
      unfolding step r paths times ..
    moreover have "is_walk routes (w @ [x])" using wne w e by (simp add: is_walk_snoc)
    moreover have "hd (w @ [x]) = start" using wne w by simp
    moreover have "int (length (w @ [x])) = hops s x + 1" using len h by simp
    ultimately show ?thesis by (intro exI [of _ "w @ [x]"]) simp
  qed
qed

text \<open>
  The result of the search between two keys of a closed graph: the flag is set exactly
  when the end differs from the start and a walk leads to it, and the reconstructed path
  is then a walk of the least number of hops, with its airborne time.
\<close>

lemma find_path_result:
  assumes closed: "graph_closed routes"
    and ks: "start \<in> set (map fst routes)" and ke: "end_v \<in> set (map fst routes)"
  shows "if start \<noteq> end_v \<and> (\<exists>w. walk_from_to routes start end_v w)
         then \<exists>p. find_path routes start end_v = Some (Inr (Found p (airborne_time routes p)))
                \<and> walk_from_to routes start end_v p
                \<and> (\<forall>w. walk_from_to routes start end_v w \<longrightarrow> length p \<le> length w)
         else find_path routes start end_v = Some (Inr NotFound)"
proof -
  let ?s0 = "initial_state routes start"
  have t0: "tree_inv routes start ?s0" using ks by (rule initial_tree_inv)
  have i0: "if path_exists ?s0 then found_inv routes start end_v ?s0
            else head_inv routes ?s0 \<and> (end_v \<noteq> start \<longrightarrow> \<not> disc ?s0 end_v)"
    by (simp add: initial_head_inv initial_state_disc) (simp add: initial_state_def)
  from bfs_loop_correct [OF closed t0 i0] obtain r
    where run: "bfs_loop routes end_v ?s0 = Some (Inr r)" and t: "tree_inv routes start r"
      and post: "if path_exists r then found_inv routes start end_v r
                 else queue r = [] \<and> head_inv routes r \<and> (end_v \<noteq> start \<longrightarrow> \<not> disc r end_v)"
    by blast
  show ?thesis
  proof (cases "path_exists r")
    case True
    with post have ne: "end_v \<noteq> start" and de: "disc r end_v"
      and least: "\<forall>w. walk_from_to routes start end_v w \<longrightarrow> hops r end_v + 1 \<le> int (length w)"
      by (simp_all add: found_inv_def)
    from t de ne obtain p where p: "parents r end_v = Some (Some p)"
      unfolding tree_inv_def by blast
    from path_loop_correct [OF t de p, of "[end_v]" 0] obtain w
      where loop: "path_loop routes (parents r) [end_v] (Some p) end_v 0
                = Some (Inr ([end_v] @ rev (butlast w), 0 + airborne_time routes w))"
        and w: "is_walk routes w" "hd w = start" "last w = end_v"
        and len: "int (length w) = hops r end_v + 1"
      by blast
    from w(1) have "w \<noteq> []" by auto
    then have "butlast w @ [last w] = w" by (rule append_butlast_last_id)
    with w(3) have "rev ([end_v] @ rev (butlast w)) = w" by simp
    with loop have "find_path routes start end_v = Some (Inr (Found w (airborne_time routes w)))"
      using ks ke run True p by (simp add: find_path_def)
    moreover from w have ww: "walk_from_to routes start end_v w" by (simp add: walk_from_to_def)
    moreover from least len have "\<forall>v. walk_from_to routes start end_v v \<longrightarrow> length w \<le> length v"
      by auto
    ultimately show ?thesis using ne by auto
  next
    case False
    with post have h: "head_inv routes r" and q: "queue r = []"
      and nd: "end_v \<noteq> start \<longrightarrow> \<not> disc r end_v"
      by simp_all
    from h q have cl: "\<forall>x y. disc r x \<and> edge routes x y \<longrightarrow> disc r y"
      unfolding head_inv_def by auto
    from t have ds: "disc r start" by (simp add: tree_inv_def disc_def)
    have "\<not> (start \<noteq> end_v \<and> (\<exists>w. walk_from_to routes start end_v w))"
    proof
      assume a: "start \<noteq> end_v \<and> (\<exists>w. walk_from_to routes start end_v w)"
      then obtain w where "is_walk routes w" "hd w = start" "last w = end_v"
        by (auto simp: walk_from_to_def)
      with walk_closed [OF cl, of w] ds have "disc r end_v" by simp
      with nd a show False by auto
    qed
    moreover from run False ks ke have "find_path routes start end_v = Some (Inr NotFound)"
      by (simp add: find_path_def)
    ultimately show ?thesis by simp
  qed
qed

text \<open>
  C3, as the code has it. On a graph whose neighbours are all keys: when both cities are
  keys, differ, and the end is reachable from the start, the search returns a walk from
  the start to the end with the least number of cities (hence of hops) among all such
  walks; when a city is no key, or the end is unreachable, or the start equals the end,
  it returns \<open>NotFound\<close>.
\<close>

theorem find_path_shortest:
  assumes "graph_closed routes"
  shows "(start \<in> set (map fst routes) \<and> end_v \<in> set (map fst routes) \<and> start \<noteq> end_v
          \<and> (\<exists>w. walk_from_to routes start end_v w)
          \<longrightarrow> (\<exists>p t. find_path routes start end_v = Some (Inr (Found p t))
                 \<and> walk_from_to routes start end_v p
                 \<and> (\<forall>w. walk_from_to routes start end_v w \<longrightarrow> length p \<le> length w)))
       \<and> (start \<notin> set (map fst routes) \<or> end_v \<notin> set (map fst routes) \<or> start = end_v
          \<or> \<not> (\<exists>w. walk_from_to routes start end_v w)
          \<longrightarrow> find_path routes start end_v = Some (Inr NotFound))"
proof (cases "start \<in> set (map fst routes) \<and> end_v \<in> set (map fst routes)")
  case True
  then have ks: "start \<in> set (map fst routes)" and ke: "end_v \<in> set (map fst routes)"
    by simp_all
  from find_path_result [OF assms ks ke] True show ?thesis
    by (cases "start \<noteq> end_v \<and> (\<exists>w. walk_from_to routes start end_v w)") auto
next
  case False
  then have "find_path routes start end_v = Some (Inr NotFound)"
    by (auto simp: find_path_def)
  with False show ?thesis by auto
qed

text \<open>
  C8, as the code has it. For a key \<open>s\<close> of a graph whose neighbours are all keys, the
  search from \<open>s\<close> to \<open>s\<close> never records the end and returns \<open>NotFound\<close>; the query
  then reports that no route can be built, whatever the timetable: neither
  \<^verbatim>\<open>find_flights\<close> nor \<^verbatim>\<open>find_nearest_flight\<close> is called.
\<close>

theorem query_same_city:
  assumes "graph_closed routes" and "s \<in> set (map fst routes)"
  shows "find_path routes s s = Some (Inr NotFound)
       \<and> query routes flights s s = Some (Inr Unreachable)"
proof -
  from find_path_result [OF assms(1,2,2)] have "find_path routes s s = Some (Inr NotFound)"
    by simp
  then show ?thesis by (simp add: query_def)
qed

theorem find_path_shortest_witness:
  "graph_closed routes_abc
 \<and> ''A'' \<in> set (map fst routes_abc) \<and> ''C'' \<in> set (map fst routes_abc) \<and> ''A'' \<noteq> ''C''
 \<and> walk_from_to routes_abc ''A'' ''C'' [''A'', ''B'', ''C'']
 \<and> (\<exists>p t. find_path routes_abc ''A'' ''C'' = Some (Inr (Found p t))
        \<and> walk_from_to routes_abc ''A'' ''C'' p
        \<and> (\<forall>w. walk_from_to routes_abc ''A'' ''C'' w \<longrightarrow> length p \<le> length w))
 \<and> ''Z'' \<notin> set (map fst routes_abc)
 \<and> find_path routes_abc ''A'' ''Z'' = Some (Inr NotFound)"
proof -
  have h1: "graph_closed routes_abc" by (simp add: graph_closed_def routes_abc_def)
  have h2: "''A'' \<in> set (map fst routes_abc)" "''C'' \<in> set (map fst routes_abc)" "''A'' \<noteq> ''C''"
    by (simp_all add: routes_abc_def)
  have h3: "walk_from_to routes_abc ''A'' ''C'' [''A'', ''B'', ''C'']"
    by (simp add: walk_from_to_def edge_def routes_row_def routes_abc_def)
  have h4: "''Z'' \<notin> set (map fst routes_abc)" by (simp add: routes_abc_def)
  from h3 have h5: "\<exists>w. walk_from_to routes_abc ''A'' ''C'' w" by blast
  from find_path_shortest [OF h1, of "''A''" "''C''"] h2 h5
  have a: "\<exists>p t. find_path routes_abc ''A'' ''C'' = Some (Inr (Found p t))
        \<and> walk_from_to routes_abc ''A'' ''C'' p
        \<and> (\<forall>w. walk_from_to routes_abc ''A'' ''C'' w \<longrightarrow> length p \<le> length w)"
    by blast
  from find_path_shortest [OF h1, of "''A''" "''Z''"] h4
  have b: "find_path routes_abc ''A'' ''Z'' = Some (Inr NotFound)" by blast
  from h1 h2 h3 h4 a b show ?thesis by blast
qed

theorem query_same_city_witness:
  "graph_closed routes_abc \<and> ''B'' \<in> set (map fst routes_abc)
 \<and> find_path routes_abc ''B'' ''B'' = Some (Inr NotFound)
 \<and> query routes_abc flights_abc ''B'' ''B'' = Some (Inr Unreachable)"
proof -
  have h1: "graph_closed routes_abc" by (simp add: graph_closed_def routes_abc_def)
  have h2: "''B'' \<in> set (map fst routes_abc)" by (simp add: routes_abc_def)
  from query_same_city [OF h1 h2, of flights_abc] h1 h2 show ?thesis by simp
qed

end
